theory Spec2Isabelle
  imports Main
begin

unbundle bit_operations_syntax

section \<open>JavaScript numbers and operators\<close>

text \<open>
  The program computes on JavaScript numbers. A number is modelled as an integer or \<open>NaN\<close>:
  the arithmetic of doubles is exact on integers below \<open>2 ^ 53\<close> in magnitude, and the
  properties proved here keep every value in that range. Fractions, infinities and the
  negative zero are not represented. The bitwise operators first convert their operands
  with \<open>ToInt32\<close> (or \<open>ToUint32\<close>) and use only the low five bits of a shift count;
  their result is a signed 32-bit value, except for \<open>>>>\<close>, whose result is unsigned.
\<close>

datatype number = Num int | NaN

fun ToInt32 :: "number \<Rightarrow> int" where
  "ToInt32 (Num i) = signed_take_bit 31 i"
| "ToInt32 NaN = 0"

fun ToUint32 :: "number \<Rightarrow> int" where
  "ToUint32 (Num i) = take_bit 32 i"
| "ToUint32 NaN = 0"

definition shiftCount :: "number \<Rightarrow> nat" where
  "shiftCount c = nat (ToUint32 c AND 31)"

text \<open>\<open>a & b\<close>, \<open>a | b\<close>, \<open>~a\<close>, \<open>a << c\<close>, \<open>a >> c\<close>, \<open>a >>> c\<close>.\<close>

definition js_and :: "number \<Rightarrow> number \<Rightarrow> number" where
  "js_and a b = Num (ToInt32 a AND ToInt32 b)"

definition js_or :: "number \<Rightarrow> number \<Rightarrow> number" where
  "js_or a b = Num (ToInt32 a OR ToInt32 b)"

definition js_not :: "number \<Rightarrow> number" where
  "js_not a = Num (NOT (ToInt32 a))"

definition js_shl :: "number \<Rightarrow> number \<Rightarrow> number" where
  "js_shl a c = Num (signed_take_bit 31 (push_bit (shiftCount c) (ToInt32 a)))"

definition js_sar :: "number \<Rightarrow> number \<Rightarrow> number" where
  "js_sar a c = Num (drop_bit (shiftCount c) (ToInt32 a))"

definition js_shr :: "number \<Rightarrow> number \<Rightarrow> number" where
  "js_shr a c = Num (drop_bit (shiftCount c) (ToUint32 a))"

text \<open>\<open>a + b\<close>, \<open>a - b\<close>, \<open>a * b\<close> on numbers: \<open>NaN\<close> is absorbing.\<close>

fun js_add :: "number \<Rightarrow> number \<Rightarrow> number" where
  "js_add (Num a) (Num b) = Num (a + b)"
| "js_add _ _ = NaN"

fun js_sub :: "number \<Rightarrow> number \<Rightarrow> number" where
  "js_sub (Num a) (Num b) = Num (a - b)"
| "js_sub _ _ = NaN"

fun js_mul :: "number \<Rightarrow> number \<Rightarrow> number" where
  "js_mul (Num a) (Num b) = Num (a * b)"
| "js_mul _ _ = NaN"

text \<open>\<open>a <= b\<close>, \<open>a < b\<close>, \<open>a == b\<close>, \<open>a != b\<close>: every comparison with \<open>NaN\<close> is false,
  except \<open>!=\<close>, which is true.\<close>

fun js_le :: "number \<Rightarrow> number \<Rightarrow> bool" where
  "js_le (Num a) (Num b) = (a \<le> b)"
| "js_le _ _ = False"

fun js_lt :: "number \<Rightarrow> number \<Rightarrow> bool" where
  "js_lt (Num a) (Num b) = (a < b)"
| "js_lt _ _ = False"

fun js_eq :: "number \<Rightarrow> number \<Rightarrow> bool" where
  "js_eq (Num a) (Num b) = (a = b)"
| "js_eq _ _ = False"

definition js_ne :: "number \<Rightarrow> number \<Rightarrow> bool" where
  "js_ne a b = (\<not> js_eq a b)"

text \<open>\<open>Math.abs\<close>, \<open>Math.min\<close> and \<open>Math.pow\<close>. The program calls \<open>Math.pow\<close> only with
  a non-negative integer exponent or \<open>NaN\<close>: \<open>array.length - index - 1\<close> in
  \<open>fromString\<close>, and \<open>prefixlen - this.prefixlen\<close> behind the guard of \<open>split\<close>. A
  negative exponent would give a fraction, which this model of numbers does not hold;
  that equation is never reached.\<close>

fun Math_abs :: "number \<Rightarrow> number" where
  "Math_abs (Num a) = Num \<bar>a\<bar>"
| "Math_abs NaN = NaN"

fun Math_min :: "number \<Rightarrow> number \<Rightarrow> number" where
  "Math_min (Num a) (Num b) = Num (min a b)"
| "Math_min _ _ = NaN"

fun Math_pow :: "number \<Rightarrow> number \<Rightarrow> number" where
  "Math_pow (Num b) (Num e) = (if 0 \<le> e then Num (b ^ nat e) else NaN)"
| "Math_pow NaN (Num e) = (if e = 0 then Num 1 else NaN)"
| "Math_pow _ NaN = NaN"

section \<open>Addresses\<close>

definition IPV4_MAX_PREFIXLEN :: number where
  "IPV4_MAX_PREFIXLEN = Num 32"

record Ipv4Address =
  int_repr :: number

definition Ipv4Address_new :: "number \<Rightarrow> Ipv4Address" where
  "Ipv4Address_new r = \<lparr>int_repr = r\<rparr>"

definition integer :: "Ipv4Address \<Rightarrow> number" where
  "integer a = int_repr a"

section \<open>Networks\<close>

record Ipv4Network =
  address :: Ipv4Address
  prefixlen :: number
  priv_netmask :: number

text \<open>The constructor: \<open>_netmask = ((1 << prefixlen) - 1) << (32 - prefixlen)\<close>.\<close>

definition Ipv4Network_new :: "Ipv4Address \<Rightarrow> number \<Rightarrow> Ipv4Network" where
  "Ipv4Network_new a p =
     \<lparr>address = a, prefixlen = p,
      priv_netmask = js_shl (js_sub (js_shl (Num 1) p) (Num 1)) (js_sub IPV4_MAX_PREFIXLEN p)\<rparr>"

text \<open>\<open>first(host)\<close> and \<open>last(host)\<close>; \<open>host ? 1 : 0\<close> is the added or subtracted number.\<close>

definition first_addr :: "Ipv4Network \<Rightarrow> bool \<Rightarrow> Ipv4Address" where
  "first_addr n host =
     Ipv4Address_new (js_add (js_and (integer (address n)) (priv_netmask n))
                             (if host then Num 1 else Num 0))"

definition last_addr :: "Ipv4Network \<Rightarrow> bool \<Rightarrow> Ipv4Address" where
  "last_addr n host =
     Ipv4Address_new (js_sub (js_add (js_and (integer (address n)) (priv_netmask n))
                                     (js_not (priv_netmask n)))
                             (if host then Num 1 else Num 0))"

definition network :: "Ipv4Network \<Rightarrow> Ipv4Address" where
  "network n = first_addr n False"

definition broadcast :: "Ipv4Network \<Rightarrow> Ipv4Address" where
  "broadcast n = last_addr n False"

definition netmask :: "Ipv4Network \<Rightarrow> Ipv4Address" where
  "netmask n = Ipv4Address_new (priv_netmask n)"

text \<open>\<open>overlaps(network)\<close>.\<close>

definition overlaps :: "Ipv4Network \<Rightarrow> Ipv4Network \<Rightarrow> bool" where
  "overlaps this other =
     (js_le (js_and (integer (address other)) (integer (netmask other)))
            (js_or (integer (address this)) (js_not (integer (netmask this))))
      \<and> js_le (js_and (integer (address this)) (integer (netmask this)))
              (js_or (integer (address other)) (js_not (integer (netmask other)))))"

text \<open>\<open>hosts()\<close>: the loop \<open>for (i = first(true); i <= last(true); i++)\<close>, with the array
  built so far as accumulator.\<close>

function hosts_loop :: "number \<Rightarrow> number \<Rightarrow> Ipv4Address list \<Rightarrow> Ipv4Address list" where
  "hosts_loop i l hs =
     (if js_le i l then hosts_loop (js_add i (Num 1)) l (hs @ [Ipv4Address_new i]) else hs)"
  by pat_completeness auto
termination
  by (relation "measure (\<lambda>(i, l, hs). case (i, l) of (Num a, Num b) \<Rightarrow> nat (b + 1 - a) | _ \<Rightarrow> 0)")
     (auto elim: js_le.elims)

declare hosts_loop.simps [simp del]

definition hosts :: "Ipv4Network \<Rightarrow> Ipv4Address list" where
  "hosts n = hosts_loop (integer (first_addr n True)) (integer (last_addr n True)) []"

text \<open>\<open>split(prefixlen)\<close>: the guard, then the loop \<open>for (i = 0; i < numNetworks; i++)\<close>.\<close>

datatype error = Error string | TypeError

function split_loop ::
  "Ipv4Network \<Rightarrow> number \<Rightarrow> number \<Rightarrow> number \<Rightarrow> Ipv4Network list \<Rightarrow> Ipv4Network list" where
  "split_loop this q numNetworks i networks =
     (if js_lt i numNetworks then
        (let newNetworkIntRepr =
               js_shl (js_add (js_shr (integer (address this)) (js_sub IPV4_MAX_PREFIXLEN q)) i)
                      (js_sub IPV4_MAX_PREFIXLEN q);
             newNetworkAddr = Ipv4Address_new newNetworkIntRepr;
             newNetwork = Ipv4Network_new newNetworkAddr q
         in split_loop this q numNetworks (js_add i (Num 1)) (networks @ [newNetwork]))
      else networks)"
  by pat_completeness auto
termination
  by (relation "measure (\<lambda>(this, q, m, i, ns). case (i, m) of (Num a, Num b) \<Rightarrow> nat (b - a) | _ \<Rightarrow> 0)")
     (auto elim: js_lt.elims)

declare split_loop.simps [simp del]

definition split_net :: "Ipv4Network \<Rightarrow> number \<Rightarrow> error + Ipv4Network list" where
  "split_net this q =
     (if js_le q (prefixlen this)
      then Inl (Error ''The requested prefix length must be larger than the supernet'')
      else Inr (split_loop this q (Math_pow (Num 2) (js_sub q (prefixlen this))) (Num 0) []))"

text \<open>\<open>isContiguous(network)\<close>. The first operand of \<open>||\<close> subtracts
  \<open>network.last().integer\<close>, the method itself and not its result: the function object
  converts to the number \<open>NaN\<close>.\<close>

definition integer_method_ToNumber :: number where
  "integer_method_ToNumber = NaN"

definition isContiguous :: "Ipv4Network \<Rightarrow> Ipv4Network \<Rightarrow> bool" where
  "isContiguous this other =
     (js_eq (Math_abs (js_sub (integer (first_addr this False)) integer_method_ToNumber)) (Num 1)
      \<or> js_eq (Math_abs (js_sub (integer (last_addr this False)) (integer (first_addr other False))))
               (Num 1))"

text \<open>\<open>merge(network)\<close>.\<close>

definition merge :: "Ipv4Network \<Rightarrow> Ipv4Network \<Rightarrow> error + Ipv4Network" where
  "merge this other =
     (if \<not> isContiguous this other
      then Inl (Error ''Address space must be congiguous in order to merge networks'')
      else if js_ne (prefixlen this) (prefixlen other)
      then Inl (Error ''Networks must be the same prefix length in order to merge'')
      else Inr (Ipv4Network_new
                  (Ipv4Address_new (Math_min (integer (address this)) (integer (address other))))
                  (js_sub (prefixlen this) (Num 1))))"

section \<open>Text\<close>

text \<open>The conversion of a number to a string, as \<open>Array.prototype.join\<close> applies it to each
  element: decimal digits, with a minus sign for a negative integer.\<close>

definition digit_char :: "nat \<Rightarrow> char" where
  "digit_char d = char_of (48 + d)"

fun dec_digits :: "nat \<Rightarrow> string" where
  "dec_digits n = (if n < 10 then [digit_char n] else dec_digits (n div 10) @ [digit_char (n mod 10)])"

declare dec_digits.simps [simp del]

fun Number_toString :: "number \<Rightarrow> string" where
  "Number_toString (Num i) = (if i < 0 then CHR ''-'' # dec_digits (nat (- i)) else dec_digits (nat i))"
| "Number_toString NaN = ''NaN''"

fun join :: "string \<Rightarrow> string list \<Rightarrow> string" where
  "join sep [] = []"
| "join sep [x] = x"
| "join sep (x # y # ys) = x @ sep @ join sep (y # ys)"

text \<open>\<open>_toIpStr(value)\<close> and \<open>Ipv4Address.prototype.toString\<close>.\<close>

definition toIpStr :: "number \<Rightarrow> string" where
  "toIpStr v =
     join ''.'' (map Number_toString
       [js_and (js_sar v (Num 24)) (Num 255),
        js_and (js_sar v (Num 16)) (Num 255),
        js_and (js_sar v (Num 8)) (Num 255),
        js_and v (Num 255)])"

definition Ipv4Address_toString :: "Ipv4Address \<Rightarrow> string" where
  "Ipv4Address_toString a = toIpStr (int_repr a)"

text \<open>\<open>String.prototype.split\<close> with a separator of one character: the result is never
  empty.\<close>

fun split_str :: "char \<Rightarrow> string \<Rightarrow> string list" where
  "split_str c [] = [[]]"
| "split_str c (x # xs) =
     (if x = c then [] # split_str c xs
      else (case split_str c xs of w # ws \<Rightarrow> (x # w) # ws | [] \<Rightarrow> [[x]]))"

text \<open>\<open>parseInt(string)\<close> with no radix: leading white space is skipped, then an optional
  sign, then \<open>0x\<close> or \<open>0X\<close> selects radix 16 (otherwise 10), then the longest run of
  digits of that radix is read; with no digit the result is \<open>NaN\<close>. Characters are
  bytes here, so only the ASCII white space is recognised.\<close>

definition isWhiteSpace :: "char \<Rightarrow> bool" where
  "isWhiteSpace c = (of_char c \<in> {9, 10, 11, 12, 13, 32 :: nat})"

definition digit_value :: "char \<Rightarrow> nat option" where
  "digit_value c =
     (let n = of_char c :: nat in
      if 48 \<le> n \<and> n \<le> 57 then Some (n - 48)
      else if 97 \<le> n \<and> n \<le> 122 then Some (n - 87)
      else if 65 \<le> n \<and> n \<le> 90 then Some (n - 55)
      else None)"

definition is_digit :: "nat \<Rightarrow> char \<Rightarrow> bool" where
  "is_digit radix c = (case digit_value c of None \<Rightarrow> False | Some d \<Rightarrow> d < radix)"

definition digits_value :: "nat \<Rightarrow> string \<Rightarrow> nat" where
  "digits_value radix ds = foldl (\<lambda>acc c. acc * radix + (case digit_value c of None \<Rightarrow> 0 | Some d \<Rightarrow> d)) 0 ds"

definition strip_sign :: "string \<Rightarrow> int \<times> string" where
  "strip_sign s =
     (case s of
        c # r \<Rightarrow> if c = CHR ''-'' then (- 1, r) else if c = CHR ''+'' then (1, r) else (1, s)
      | [] \<Rightarrow> (1, []))"

definition strip_prefix :: "string \<Rightarrow> nat \<times> string" where
  "strip_prefix s =
     (case s of
        a # b # r \<Rightarrow> if a = CHR ''0'' \<and> (b = CHR ''x'' \<or> b = CHR ''X'') then (16, r) else (10, s)
      | _ \<Rightarrow> (10, s))"

definition parseInt :: "string \<Rightarrow> number" where
  "parseInt s =
     (let (sign, s2) = strip_sign (dropWhile isWhiteSpace s);
          (radix, s3) = strip_prefix s2;
          ds = takeWhile (is_digit radix) s3
      in if ds = [] then NaN else Num (sign * int (digits_value radix ds)))"

text \<open>\<open>Array.prototype.reduce\<close> with no initial value: a \<open>TypeError\<close> on the empty array.\<close>

fun reduce :: "('a \<Rightarrow> 'a \<Rightarrow> 'a) \<Rightarrow> 'a list \<Rightarrow> error + 'a" where
  "reduce f [] = Inl TypeError"
| "reduce f (x # xs) = Inr (foldl f x xs)"

text \<open>\<open>Ipv4Address.fromString(address)\<close>: each part is weighted by
  \<open>Math.pow(256, array.length - index - 1)\<close> and the terms are summed. The sum is assigned
  to the undeclared variable \<open>integer\<close>, a global of the non-strict module, and read back
  at once.\<close>

definition fromString :: "string \<Rightarrow> error + Ipv4Address" where
  "fromString addr =
     (let array = split_str CHR ''.'' addr;
          terms = map (\<lambda>(octet, index).
                    js_mul (parseInt octet)
                      (Math_pow (Num 256)
                         (js_sub (js_sub (Num (int (length array))) (Num (int index))) (Num 1))))
                  (zip array [0..<length array])
      in case reduce js_add terms of Inl e \<Rightarrow> Inl e | Inr r \<Rightarrow> Inr (Ipv4Address_new r))"

text \<open>\<open>Ipv4Network.fromCidr(cidr)\<close>: \<open>parts[1]\<close> is \<open>undefined\<close> when the text has no
  slash, and \<open>parseInt(undefined)\<close> is \<open>NaN\<close>.\<close>

definition fromCidr :: "string \<Rightarrow> error + Ipv4Network" where
  "fromCidr cidr =
     (case split_str CHR ''/'' cidr of
        [] \<Rightarrow> Inl TypeError
      | p0 # rest \<Rightarrow>
          (case fromString p0 of
             Inl e \<Rightarrow> Inl e
           | Inr a \<Rightarrow> Inr (Ipv4Network_new a (case rest of [] \<Rightarrow> NaN | p1 # _ \<Rightarrow> parseInt p1))))"

section \<open>Notions for stating the properties\<close>

text \<open>An address, given as an integer from 0 to \<open>2 ^ 32 - 1\<close>, lies in the range of a
  network when it is between the results of \<open>network()\<close> and \<open>broadcast()\<close>, both read
  as unsigned 32-bit values: the values whose octets \<open>toString\<close> renders.\<close>

definition in_range :: "Ipv4Network \<Rightarrow> int \<Rightarrow> bool" where
  "in_range n x = (ToUint32 (integer (network n)) \<le> x \<and> x \<le> ToUint32 (integer (broadcast n)))"

text \<open>The network that the loop of \<open>split\<close> appends in the iteration with counter \<open>i\<close>.\<close>

definition split_child :: "Ipv4Network \<Rightarrow> number \<Rightarrow> number \<Rightarrow> Ipv4Network" where
  "split_child this q i =
     Ipv4Network_new
       (Ipv4Address_new
          (js_shl (js_add (js_shr (integer (address this)) (js_sub IPV4_MAX_PREFIXLEN q)) i)
                  (js_sub IPV4_MAX_PREFIXLEN q)))
       q"

section \<open>Netmask\<close>

lemma netmask_table:
  "\<forall>p \<in> set [0..32].
     js_shl (js_sub (js_shl (Num 1) (Num p)) (Num 1)) (js_sub IPV4_MAX_PREFIXLEN (Num p))
       = Num (if p = 0 \<or> p = 32 then 0 else - (2 ^ nat (32 - p)))"
  by code_simp

lemma priv_netmask_new:
  assumes "0 \<le> p" and "p \<le> 32"
  shows "priv_netmask (Ipv4Network_new a (Num p))
           = Num (if p = 0 \<or> p = 32 then 0 else - (2 ^ nat (32 - p)))"
proof -
  from assms have "p \<in> set [0..32]" by simp
  with netmask_table show ?thesis
    unfolding Ipv4Network_new_def by (simp del: set_upto)
qed

lemma neg_mod_int: "0 < x \<Longrightarrow> x \<le> m \<Longrightarrow> (- x) mod m = m - (x::int)"
  by (cases "x = m") (simp_all add: zmod_zminus1_eq_if)

lemma netmask_leading_ones:
  assumes "0 \<le> p" and "p \<le> 31"
  shows "ToUint32 (integer (netmask (Ipv4Network_new a (Num p)))) = 2 ^ 32 - 2 ^ nat (32 - p)"
proof (cases "p = 0")
  case True
  then show ?thesis
    using priv_netmask_new [of p a] by (simp add: netmask_def integer_def Ipv4Address_new_def)
next
  case False
  with assms have k: "nat (32 - p) \<le> 32" "0 < p" by simp_all
  have "take_bit 32 (- (2 ^ nat (32 - p)) :: int) = 2 ^ 32 - 2 ^ nat (32 - p)"
  proof -
    have "(2::int) ^ nat (32 - p) \<le> 2 ^ 32"
      using k(1) by (intro power_increasing) simp_all
    then show ?thesis
      using neg_mod_int [of "2 ^ nat (32 - p)" "2 ^ 32"] by (simp add: take_bit_eq_mod)
  qed
  then show ?thesis
    using priv_netmask_new [of p a] assms False
    by (simp add: netmask_def integer_def Ipv4Address_new_def)
qed

text \<open>C1: the netmask of prefix length \<open>p\<close> is claimed to have its top \<open>p\<close> bits set, all
  ones for \<open>p = 32\<close>. The constructor gives that for \<open>0 \<le> p \<le> 31\<close> (lemma
  \<open>netmask_leading_ones\<close>); for \<open>p = 32\<close> the shift count wraps to 0 and it gives 0.\<close>

theorem C1_netmask_prefix_32:
  "integer (netmask (Ipv4Network_new a (Num 32))) = Num 0
   \<and> ToUint32 (integer (netmask (Ipv4Network_new a (Num 32)))) \<noteq> 2 ^ 32 - 1"
  using priv_netmask_new [of 32 a] by (simp add: netmask_def integer_def Ipv4Address_new_def)

section \<open>Overlap is symmetric\<close>

text \<open>C9: for every pair of networks \<open>a\<close> and \<open>b\<close>, \<open>a.overlaps(b)\<close> equals
  \<open>b.overlaps(a)\<close>.\<close>

theorem C9_overlaps_symmetric: "overlaps a b = overlaps b a"
  unfolding overlaps_def by (rule conj_commute)

theorem C9_overlaps_symmetric_witness:
  "overlaps (Ipv4Network_new (Ipv4Address_new (Num 170852352)) (Num 16))
            (Ipv4Network_new (Ipv4Address_new (Num 170868736)) (Num 18))
   = overlaps (Ipv4Network_new (Ipv4Address_new (Num 170868736)) (Num 18))
              (Ipv4Network_new (Ipv4Address_new (Num 170852352)) (Num 16))"
  using C9_overlaps_symmetric
    [of "Ipv4Network_new (Ipv4Address_new (Num 170852352)) (Num 16)"
        "Ipv4Network_new (Ipv4Address_new (Num 170868736)) (Num 18)"]
  by simp

section \<open>The guard of split\<close>

text \<open>C7: for every network of prefix length \<open>p\<close> and every integer \<open>q\<close>, \<open>split(q)\<close>
  fails with the invalid-argument error exactly when \<open>q \<le> p\<close>; the failure is the whole
  result, no child network is produced. In particular, splitting \<open>10.47.0.0/17\<close> at
  prefix length 17 fails.\<close>

theorem C7_split_guard:
  "(split_net (Ipv4Network_new a (Num p)) (Num q)
      = Inl (Error ''The requested prefix length must be larger than the supernet'')) = (q \<le> p)
   \<and> isl (split_net (Ipv4Network_new a (Num p)) (Num q)) = (q \<le> p)
   \<and> fromCidr ''10.47.0.0/17'' = Inr (Ipv4Network_new (Ipv4Address_new (Num 170852352)) (Num 17))
   \<and> split_net (Ipv4Network_new (Ipv4Address_new (Num 170852352)) (Num 17)) (Num 17)
      = Inl (Error ''The requested prefix length must be larger than the supernet'')"
proof -
  have "fromCidr ''10.47.0.0/17'' = Inr (Ipv4Network_new (Ipv4Address_new (Num 170852352)) (Num 17))"
    by code_simp
  then show ?thesis
    by (simp add: split_net_def Ipv4Network_new_def)
qed

theorem C7_split_guard_witness:
  "split_net (Ipv4Network_new (Ipv4Address_new (Num 170852352)) (Num 16)) (Num 16)
     = Inl (Error ''The requested prefix length must be larger than the supernet'')
   \<and> \<not> isl (split_net (Ipv4Network_new (Ipv4Address_new (Num 170852352)) (Num 16)) (Num 18))"
  using C7_split_guard [of "Ipv4Address_new (Num 170852352)" 16 16]
        C7_split_guard [of "Ipv4Address_new (Num 170852352)" 16 18]
  by simp

section \<open>Adjacency\<close>


text \<open>C2: \<open>a.isContiguous(b)\<close> is claimed true whenever \<open>|a.network() - b.broadcast()| = 1\<close>.
  For \<open>a = 10.0.1.0/24\<close> and \<open>b = 10.0.0.0/24\<close> that distance is 1 and the code
  answers false.\<close>

theorem C2_isContiguous_misses_lower_neighbour:
  "fromCidr ''10.0.1.0/24'' = Inr (Ipv4Network_new (Ipv4Address_new (Num 167772416)) (Num 24))
   \<and> fromCidr ''10.0.0.0/24'' = Inr (Ipv4Network_new (Ipv4Address_new (Num 167772160)) (Num 24))
   \<and> js_eq (Math_abs (js_sub
        (integer (network (Ipv4Network_new (Ipv4Address_new (Num 167772416)) (Num 24))))
        (integer (broadcast (Ipv4Network_new (Ipv4Address_new (Num 167772160)) (Num 24))))))
      (Num 1)
   \<and> \<not> isContiguous (Ipv4Network_new (Ipv4Address_new (Num 167772416)) (Num 24))
                     (Ipv4Network_new (Ipv4Address_new (Num 167772160)) (Num 24))"
  by code_simp

text \<open>C6: \<open>merge\<close> is claimed to succeed for every adjacent pair of equal prefix length.
  For \<open>a = 10.0.1.0/24\<close> and \<open>b = 10.0.0.0/24\<close>, adjacent and both of prefix length 24,
  \<open>a.merge(b)\<close> fails with the error for address space that is not contiguous.\<close>

theorem C6_merge_rejects_lower_neighbour:
  "js_eq (Math_abs (js_sub
        (integer (network (Ipv4Network_new (Ipv4Address_new (Num 167772416)) (Num 24))))
        (integer (broadcast (Ipv4Network_new (Ipv4Address_new (Num 167772160)) (Num 24))))))
      (Num 1)
   \<and> js_eq (prefixlen (Ipv4Network_new (Ipv4Address_new (Num 167772416)) (Num 24)))
            (prefixlen (Ipv4Network_new (Ipv4Address_new (Num 167772160)) (Num 24)))
   \<and> merge (Ipv4Network_new (Ipv4Address_new (Num 167772416)) (Num 24))
            (Ipv4Network_new (Ipv4Address_new (Num 167772160)) (Num 24))
      = Inl (Error ''Address space must be congiguous in order to merge networks'')"
  by code_simp

section \<open>Host enumeration\<close>

lemma hosts_loop_Num:
  "hosts_loop (Num i) (Num l) hs = hs @ map (\<lambda>k. Ipv4Address_new (Num k)) [i..l]"
proof (induction "nat (l + 1 - i)" arbitrary: i hs)
  case 0
  then have "l < i" by simp
  then show ?case by (subst hosts_loop.simps) simp
next
  case (Suc n)
  then have le: "i \<le> l" and n: "n = nat (l + 1 - (i + 1))" by simp_all
  have "hosts_loop (Num i) (Num l) hs
          = hosts_loop (Num (i + 1)) (Num l) (hs @ [Ipv4Address_new (Num i)])"
    using le by (subst hosts_loop.simps) simp
  also have "\<dots> = (hs @ [Ipv4Address_new (Num i)]) @ map (\<lambda>k. Ipv4Address_new (Num k)) [i + 1..l]"
    using Suc.hyps(1) [OF n] .
  also have "\<dots> = hs @ map (\<lambda>k. Ipv4Address_new (Num k)) [i..l]"
    using le by (simp add: upto_rec1 [of i l])
  finally show ?case .
qed

lemma first_addr_Num:
  "integer (first_addr n h) = Num ((ToInt32 (integer (address n)) AND ToInt32 (priv_netmask n))
                                     + (if h then 1 else 0))"
  by (simp add: first_addr_def integer_def Ipv4Address_new_def js_and_def)

lemma last_addr_Num:
  "integer (last_addr n h) = Num ((ToInt32 (integer (address n)) AND ToInt32 (priv_netmask n))
                                    + NOT (ToInt32 (priv_netmask n)) - (if h then 1 else 0))"
  by (simp add: last_addr_def integer_def Ipv4Address_new_def js_and_def js_not_def)

lemma hosts_eq:
  "integer (first_addr n True) = Num f \<Longrightarrow> integer (last_addr n True) = Num l
     \<Longrightarrow> hosts n = map (\<lambda>k. Ipv4Address_new (Num k)) [f..l]"
  by (simp add: hosts_def hosts_loop_Num)

text \<open>C10: when \<open>first(true)\<close> exceeds \<open>last(true)\<close>, as it does for the prefix lengths 31
  and 32, \<open>hosts()\<close> is the empty sequence; and every address that \<open>hosts()\<close> yields
  lies between \<open>first(true)\<close> and \<open>last(true)\<close>.\<close>

theorem C10_hosts_within_bounds:
  "(js_lt (integer (last_addr n True)) (integer (first_addr n True)) \<longrightarrow> hosts n = [])
   \<and> (\<forall>h \<in> set (hosts n).
         js_le (integer (first_addr n True)) (integer h)
         \<and> js_le (integer h) (integer (last_addr n True)))
   \<and> (p = 31 \<or> p = 32 \<longrightarrow>
         js_lt (integer (last_addr (Ipv4Network_new a (Num p)) True))
               (integer (first_addr (Ipv4Network_new a (Num p)) True))
         \<and> hosts (Ipv4Network_new a (Num p)) = [])"
proof -
  obtain f l where f: "integer (first_addr n True) = Num f" and l: "integer (last_addr n True) = Num l"
    by (simp add: first_addr_Num last_addr_Num)
  have 1: "js_lt (integer (last_addr n True)) (integer (first_addr n True)) \<longrightarrow> hosts n = []"
    by (simp add: f l hosts_eq [OF f l])
  have 2: "\<forall>h \<in> set (hosts n).
         js_le (integer (first_addr n True)) (integer h)
         \<and> js_le (integer h) (integer (last_addr n True))"
    using f l by (auto simp: hosts_eq [OF f l] integer_def Ipv4Address_new_def)
  have 3: "js_lt (integer (last_addr (Ipv4Network_new a (Num p)) True))
               (integer (first_addr (Ipv4Network_new a (Num p)) True))
         \<and> hosts (Ipv4Network_new a (Num p)) = []" if p: "p = 31 \<or> p = 32"
  proof -
    let ?n = "Ipv4Network_new a (Num p)"
    have m: "priv_netmask ?n = Num (if p = 32 then 0 else - 2)"
      using p priv_netmask_new [of p a] by auto
    have lt: "js_lt (integer (last_addr ?n True)) (integer (first_addr ?n True))"
      using p by (auto simp: first_addr_Num last_addr_Num m)
    obtain f' l' where f': "integer (first_addr ?n True) = Num f'"
      and l': "integer (last_addr ?n True) = Num l'"
      by (simp add: first_addr_Num last_addr_Num)
    from lt show ?thesis by (simp add: f' l' hosts_eq [OF f' l'])
  qed
  from 1 2 3 show ?thesis by blast
qed

theorem C10_hosts_within_bounds_witness:
  "js_lt (integer (last_addr (Ipv4Network_new (Ipv4Address_new (Num 170852352)) (Num 31)) True))
         (integer (first_addr (Ipv4Network_new (Ipv4Address_new (Num 170852352)) (Num 31)) True))
   \<and> hosts (Ipv4Network_new (Ipv4Address_new (Num 170852352)) (Num 31)) = []
   \<and> hosts (Ipv4Network_new (Ipv4Address_new (Num 170852352)) (Num 30))
       = [Ipv4Address_new (Num 170852353), Ipv4Address_new (Num 170852354)]
   \<and> js_le (integer (first_addr (Ipv4Network_new (Ipv4Address_new (Num 170852352)) (Num 30)) True))
           (integer (Ipv4Address_new (Num 170852354)))
   \<and> js_le (integer (Ipv4Address_new (Num 170852354)))
           (integer (last_addr (Ipv4Network_new (Ipv4Address_new (Num 170852352)) (Num 30)) True))"
proof -
  have h30: "hosts (Ipv4Network_new (Ipv4Address_new (Num 170852352)) (Num 30))
       = [Ipv4Address_new (Num 170852353), Ipv4Address_new (Num 170852354)]"
    by code_simp
  have lt31: "js_lt (integer (last_addr (Ipv4Network_new (Ipv4Address_new (Num 170852352)) (Num 31)) True))
         (integer (first_addr (Ipv4Network_new (Ipv4Address_new (Num 170852352)) (Num 31)) True))"
    by code_simp
  show ?thesis
    using C10_hosts_within_bounds
            [of "Ipv4Network_new (Ipv4Address_new (Num 170852352)) (Num 31)" 31
                "Ipv4Address_new (Num 170852352)"]
          C10_hosts_within_bounds
            [of "Ipv4Network_new (Ipv4Address_new (Num 170852352)) (Num 30)" 31
                "Ipv4Address_new (Num 170852352)"]
          h30 lt31
    by simp
qed

section \<open>Network and broadcast address as integers\<close>

lemma and_neg_pow: "(x::int) AND - (2 ^ k) = x - x mod 2 ^ k"
proof -
  have "x AND NOT (mask k) = push_bit k (drop_bit k x)"
    by (rule bit_eqI) (auto simp: bit_simps)
  also have "\<dots> = x - x mod 2 ^ k"
    by (simp add: push_bit_eq_mult drop_bit_eq_div minus_mod_eq_div_mult)
  finally show ?thesis by (simp add: minus_exp_eq_not_mask)
qed

lemma or_mask_int: "(x::int) OR (2 ^ k - 1) = x - x mod 2 ^ k + 2 ^ k - 1"
proof -
  have "x OR mask k = (x AND NOT (mask k)) OR mask k"
    by (rule bit_eqI) (auto simp: bit_simps)
  also have "\<dots> = (x AND NOT (mask k)) + mask k"
    by (rule disjunctive_add_eq_or [symmetric]) (rule bit_eqI, auto simp: bit_simps)
  finally show ?thesis
    using and_neg_pow [of x k] by (simp add: minus_exp_eq_not_mask mask_eq_exp_minus_1)
qed

lemma not_neg_pow: "NOT (- (2 ^ k) :: int) = 2 ^ k - 1"
  by (simp add: not_int_def)

lemma int32_neg_pow:
  assumes "k \<le> 31"
  shows "signed_take_bit 31 (- (2 ^ k) :: int) = - (2 ^ k)"
proof -
  have "(2::int) ^ k \<le> 2 ^ 31"
    using assms by (intro power_increasing) simp_all
  moreover have "(0::int) < 2 ^ k" by simp
  ultimately have "- (2 ^ 31) \<le> - (2 ^ k :: int)" and "- (2 ^ k) < (2::int) ^ 31"
    by linarith+
  then show ?thesis by (rule signed_take_bit_int_eq_self)
qed

lemma int32_pow_minus_1:
  assumes "k \<le> 31"
  shows "signed_take_bit 31 (2 ^ k - 1 :: int) = 2 ^ k - 1"
proof -
  have "(2::int) ^ k \<le> 2 ^ 31"
    using assms by (intro power_increasing) simp_all
  moreover have "(0::int) < 2 ^ k" by simp
  ultimately have "- (2 ^ 31) \<le> (2 ^ k - 1 :: int)" and "2 ^ k - 1 < (2::int) ^ 31"
    by linarith+
  then show ?thesis by (rule signed_take_bit_int_eq_self)
qed

text \<open>For the prefix lengths 1 to 31 the network address is the base with its low
  \<open>32 - p\<close> bits cleared and the broadcast address has them set.\<close>

lemma network_parts:
  fixes a :: Ipv4Address and p :: int
  assumes "1 \<le> p" and "p \<le> 31"
  defines "n \<equiv> Ipv4Network_new a (Num p)"
  defines "k \<equiv> nat (32 - p)"
  defines "lo \<equiv> ToInt32 (integer a) - ToInt32 (integer a) mod 2 ^ k"
  shows "integer (network n) = Num lo"
    and "integer (broadcast n) = Num (lo + 2 ^ k - 1)"
    and "js_and (integer (address n)) (integer (netmask n)) = Num lo"
    and "js_or (integer (address n)) (js_not (integer (netmask n))) = Num (lo + 2 ^ k - 1)"
proof -
  have k: "k \<le> 31" using assms by simp
  have m: "priv_netmask n = Num (- (2 ^ k))"
    using assms priv_netmask_new [of p a] by simp
  have a: "address n = a" by (simp add: n_def Ipv4Network_new_def)
  show "integer (network n) = Num lo"
    by (simp add: network_def first_addr_Num m a int32_neg_pow [OF k] and_neg_pow lo_def)
  show "integer (broadcast n) = Num (lo + 2 ^ k - 1)"
    by (simp add: broadcast_def last_addr_Num m a int32_neg_pow [OF k] and_neg_pow lo_def
        not_neg_pow)
  show "js_and (integer (address n)) (integer (netmask n)) = Num lo"
    by (simp add: js_and_def netmask_def integer_def Ipv4Address_new_def m a
        int32_neg_pow [OF k] and_neg_pow lo_def)
  show "js_or (integer (address n)) (js_not (integer (netmask n))) = Num (lo + 2 ^ k - 1)"
    by (simp add: js_or_def js_not_def netmask_def integer_def Ipv4Address_new_def m a
        int32_neg_pow [OF k] int32_pow_minus_1 [OF k] not_neg_pow or_mask_int lo_def)
qed

text \<open>For the prefix lengths 0 and 32 the stored netmask is 0: the network address is 0
  and the broadcast address is \<open>-1\<close>.\<close>

lemma network_parts_0:
  fixes a :: Ipv4Address and p :: int
  assumes "p = 0 \<or> p = 32"
  defines "n \<equiv> Ipv4Network_new a (Num p)"
  shows "integer (network n) = Num 0"
    and "integer (broadcast n) = Num (- 1)"
    and "js_and (integer (address n)) (integer (netmask n)) = Num 0"
    and "js_or (integer (address n)) (js_not (integer (netmask n))) = Num (- 1)"
proof -
  have m: "priv_netmask n = Num 0"
    using assms priv_netmask_new [of p a] by auto
  show "integer (network n) = Num 0"
    by (simp add: network_def first_addr_Num m)
  show "integer (broadcast n) = Num (- 1)"
    by (simp add: broadcast_def last_addr_Num m)
  show "js_and (integer (address n)) (integer (netmask n)) = Num 0"
    by (simp add: js_and_def netmask_def integer_def Ipv4Address_new_def m)
  show "js_or (integer (address n)) (js_not (integer (netmask n))) = Num (- 1)"
    by (simp add: js_or_def js_not_def netmask_def integer_def Ipv4Address_new_def m)
qed

lemma block_one_sign:
  fixes s :: int
  shows "0 \<le> s - s mod 2 ^ k \<or> s - s mod 2 ^ k + 2 ^ k - 1 < 0"
proof (cases "0 \<le> s")
  case True
  then have "s mod 2 ^ k \<le> s" by (simp add: zmod_le_nonneg_dividend)
  then show ?thesis by simp
next
  case False
  then have "s div 2 ^ k < 0"
    by (simp add: div_neg_pos_less0)
  then have "s div 2 ^ k \<le> - 1" by linarith
  then have "(s div 2 ^ k) * 2 ^ k \<le> (- 1) * 2 ^ k"
    by (intro mult_right_mono) simp_all
  moreover have "s - s mod 2 ^ k = (s div 2 ^ k) * 2 ^ k"
    by (simp add: minus_mod_eq_div_mult)
  ultimately show ?thesis by simp
qed

section \<open>Merging\<close>




section \<open>Rendering and parsing an address\<close>

lemma is_digit_10_iff: "is_digit 10 c = (48 \<le> (of_char c :: nat) \<and> (of_char c :: nat) \<le> 57)"
  by (auto simp: is_digit_def digit_value_def Let_def)

lemma of_char_digit_char: "d < 10 \<Longrightarrow> (of_char (digit_char d) :: nat) = 48 + d"
  by (simp add: digit_char_def)

lemma is_digit_digit_char: "d < 10 \<Longrightarrow> is_digit 10 (digit_char d)"
  by (simp add: is_digit_10_iff of_char_digit_char)

lemma digit_value_digit_char: "d < 10 \<Longrightarrow> digit_value (digit_char d) = Some d"
  by (simp add: digit_value_def of_char_digit_char)

lemma dec_digits_not_Nil: "dec_digits n \<noteq> []"
  by (subst dec_digits.simps) simp

lemma dec_digits_all_digits: "c \<in> set (dec_digits n) \<Longrightarrow> is_digit 10 c"
proof (induction n arbitrary: c rule: dec_digits.induct)
  case (1 n)
  show ?case
  proof (cases "n < 10")
    case True
    with "1.prems" show ?thesis
      by (subst (asm) dec_digits.simps) (simp add: is_digit_digit_char)
  next
    case False
    with "1.prems" have "c \<in> set (dec_digits (n div 10)) \<or> c = digit_char (n mod 10)"
      by (subst (asm) dec_digits.simps) auto
    with False "1.IH" show ?thesis
      by (auto simp: is_digit_digit_char)
  qed
qed

lemma digits_value_snoc:
  "digits_value r (ds @ [c]) = digits_value r ds * r + (case digit_value c of None \<Rightarrow> 0 | Some d \<Rightarrow> d)"
  by (simp add: digits_value_def)

lemma digits_value_dec_digits: "digits_value 10 (dec_digits n) = n"
proof (induction n rule: dec_digits.induct)
  case (1 n)
  show ?case
  proof (cases "n < 10")
    case True
    then show ?thesis
      by (subst dec_digits.simps) (simp add: digits_value_def digit_value_digit_char)
  next
    case False
    with "1.IH" have "digits_value 10 (dec_digits (n div 10)) = n div 10" by simp
    with False show ?thesis
      by (subst dec_digits.simps) (simp add: digits_value_snoc digit_value_digit_char)
  qed
qed

lemma not_white_digit: "is_digit 10 c \<Longrightarrow> \<not> isWhiteSpace c"
  by (auto simp: is_digit_10_iff isWhiteSpace_def)

lemma digit_not_special:
  assumes "is_digit 10 c"
  shows "c \<noteq> CHR ''-''" and "c \<noteq> CHR ''+''" and "c \<noteq> CHR ''x''" and "c \<noteq> CHR ''X''"
    and "c \<noteq> CHR ''.''"
  using assms by (auto simp: is_digit_10_iff)

lemma parseInt_digits:
  assumes "s \<noteq> []" and "\<And>c. c \<in> set s \<Longrightarrow> is_digit 10 c"
  shows "parseInt s = Num (int (digits_value 10 s))"
proof -
  from assms(1) obtain c r where s: "s = c # r" by (cases s) auto
  have c: "is_digit 10 c" using assms(2) s by simp
  have 1: "dropWhile isWhiteSpace s = s"
    using c by (simp add: s not_white_digit)
  have 2: "strip_sign s = (1, s)"
    using digit_not_special [OF c] by (simp add: strip_sign_def s)
  have 3: "strip_prefix s = (10, s)"
  proof (cases r)
    case Nil
    then show ?thesis by (simp add: strip_prefix_def s)
  next
    case (Cons b r')
    then have "is_digit 10 b" using assms(2) s by simp
    from digit_not_special [OF this] Cons show ?thesis by (simp add: strip_prefix_def s)
  qed
  have 4: "takeWhile (is_digit 10) s = s"
    using assms(2) by (simp add: takeWhile_eq_all_conv)
  show ?thesis
    using assms(1) by (simp add: parseInt_def 1 2 3 4)
qed

lemma parseInt_dec_digits: "parseInt (dec_digits n) = Num (int n)"
  using parseInt_digits [of "dec_digits n"]
  by (simp add: dec_digits_not_Nil dec_digits_all_digits digits_value_dec_digits)

lemma split_str_no_sep: "c \<notin> set w \<Longrightarrow> split_str c w = [w]"
  by (induction w) auto

lemma split_str_append: "c \<notin> set w \<Longrightarrow> split_str c (w @ c # rest) = w # split_str c rest"
  by (induction w) auto

lemma dot_not_in_dec_digits: "CHR ''.'' \<notin> set (dec_digits n)"
  using dec_digits_all_digits digit_not_special(5) by blast

lemma split_join_dec_digits:
  "split_str CHR ''.'' (join ''.'' [dec_digits a, dec_digits b, dec_digits c, dec_digits d])
     = [dec_digits a, dec_digits b, dec_digits c, dec_digits d]"
  by (simp add: split_str_append split_str_no_sep dot_not_in_dec_digits)

lemma fromString_dec_digits:
  "fromString (join ''.'' [dec_digits a, dec_digits b, dec_digits c, dec_digits d])
     = Inr (Ipv4Address_new (Num (int a * 16777216 + int b * 65536 + int c * 256 + int d)))"
proof -
  have u: "[0..<4] = [0, 1, 2, 3::nat]" by (simp add: upt_rec)
  show ?thesis
    unfolding fromString_def split_join_dec_digits
    by (simp add: u parseInt_dec_digits)
qed

lemma octet_bits:
  fixes v :: int
  assumes "k \<le> 24"
  shows "signed_take_bit 31 (drop_bit k (signed_take_bit 31 v)) AND 255 = take_bit 8 (drop_bit k v)"
proof -
  have "(255::int) = mask 8" by (simp add: mask_eq_exp_minus_1)
  then have "signed_take_bit 31 (drop_bit k (signed_take_bit 31 v)) AND 255
               = take_bit 8 (signed_take_bit 31 (drop_bit k (signed_take_bit 31 v)))"
    by (simp add: take_bit_eq_mask)
  also have "\<dots> = take_bit 8 (drop_bit k v)"
  proof (rule bit_eqI)
    fix n
    show "bit (take_bit 8 (signed_take_bit 31 (drop_bit k (signed_take_bit 31 v)))) n
            = bit (take_bit 8 (drop_bit k v)) n"
    proof (cases "n < 8")
      case True
      with assms have "min 31 n = n" and "min 31 (k + n) = k + n" by simp_all
      then show ?thesis by (simp add: bit_simps)
    next
      case False
      then show ?thesis by (simp add: bit_simps)
    qed
  qed
  finally show ?thesis .
qed

lemma octet_low:
  fixes v :: int
  shows "signed_take_bit 31 v AND 255 = take_bit 8 v"
proof -
  have "(255::int) = mask 8" by (simp add: mask_eq_exp_minus_1)
  then have "signed_take_bit 31 v AND 255 = take_bit 8 (signed_take_bit 31 v)"
    by (simp add: take_bit_eq_mask)
  also have "\<dots> = take_bit 8 v"
    by (intro bit_eqI) (auto simp: bit_simps min_def)
  finally show ?thesis .
qed

lemma shiftCount_values: "shiftCount (Num 24) = 24" "shiftCount (Num 16) = 16" "shiftCount (Num 8) = 8"
  by (simp_all add: shiftCount_def)

lemma octets_of:
  "js_and (js_sar (Num v) (Num 24)) (Num 255) = Num (v div 16777216 mod 256)"
  "js_and (js_sar (Num v) (Num 16)) (Num 255) = Num (v div 65536 mod 256)"
  "js_and (js_sar (Num v) (Num 8)) (Num 255) = Num (v div 256 mod 256)"
  "js_and (Num v) (Num 255) = Num (v mod 256)"
proof -
  have c: "signed_take_bit 31 (255::int) = 255" by simp
  show "js_and (js_sar (Num v) (Num 24)) (Num 255) = Num (v div 16777216 mod 256)"
    using octet_bits [of 24 v]
    by (simp add: js_and_def js_sar_def shiftCount_values take_bit_eq_mod drop_bit_eq_div)
  show "js_and (js_sar (Num v) (Num 16)) (Num 255) = Num (v div 65536 mod 256)"
    using octet_bits [of 16 v]
    by (simp add: js_and_def js_sar_def shiftCount_values take_bit_eq_mod drop_bit_eq_div)
  show "js_and (js_sar (Num v) (Num 8)) (Num 255) = Num (v div 256 mod 256)"
    using octet_bits [of 8 v]
    by (simp add: js_and_def js_sar_def shiftCount_values take_bit_eq_mod drop_bit_eq_div)
  show "js_and (Num v) (Num 255) = Num (v mod 256)"
    using octet_low [of v]
    by (simp add: js_and_def take_bit_eq_mod)
qed

lemma toIpStr_Num:
  "toIpStr (Num v) = join ''.'' [dec_digits (nat (v div 16777216 mod 256)),
                                 dec_digits (nat (v div 65536 mod 256)),
                                 dec_digits (nat (v div 256 mod 256)),
                                 dec_digits (nat (v mod 256))]"
  unfolding toIpStr_def octets_of by (simp add: not_less)

lemma octets_sum:
  fixes v :: int
  shows "v div 16777216 mod 256 * 16777216 + v div 65536 mod 256 * 65536
           + v div 256 mod 256 * 256 + v mod 256 = v mod 4294967296"
proof -
  define w where "w = v div 256"
  define x where "x = w div 256"
  define y where "y = x div 256"
  have 1: "v mod (256 * 16777216) = 256 * (w mod 16777216) + v mod 256"
    unfolding w_def by (rule zmod_zmult2_eq) simp
  have 2: "w mod (256 * 65536) = 256 * (x mod 65536) + w mod 256"
    unfolding x_def by (rule zmod_zmult2_eq) simp
  have 3: "x mod (256 * 256) = 256 * (y mod 256) + x mod 256"
    unfolding y_def by (rule zmod_zmult2_eq) simp
  have x: "x = v div 65536"
    unfolding x_def w_def by (simp add: zdiv_zmult2_eq [symmetric])
  have y: "y = v div 16777216"
    unfolding y_def x by (simp add: zdiv_zmult2_eq [symmetric])
  from 1 2 3 have "v mod 4294967296
      = y mod 256 * 16777216 + x mod 256 * 65536 + w mod 256 * 256 + v mod 256"
    by simp
  then show ?thesis
    unfolding x [symmetric] y [symmetric] w_def [symmetric] by simp
qed

text \<open>Rendering any integer and parsing the text gives the integer modulo \<open>2 ^ 32\<close>.\<close>

lemma fromString_toString_mod:
  "fromString (Ipv4Address_toString (Ipv4Address_new (Num v)))
     = Inr (Ipv4Address_new (Num (v mod 4294967296)))"
proof -
  have n: "int (nat (v div 16777216 mod 256)) = v div 16777216 mod 256"
    "int (nat (v div 65536 mod 256)) = v div 65536 mod 256"
    "int (nat (v div 256 mod 256)) = v div 256 mod 256"
    "int (nat (v mod 256)) = v mod 256"
    by simp_all
  have "Ipv4Address_toString (Ipv4Address_new (Num v)) = toIpStr (Num v)"
    by (simp add: Ipv4Address_toString_def Ipv4Address_new_def)
  then show ?thesis
    by (simp only: toIpStr_Num fromString_dec_digits n octets_sum)
qed

text \<open>C8: for every address holding an integer \<open>v\<close> with \<open>0 \<le> v < 2 ^ 32\<close>, parsing the
  dotted-decimal text that \<open>toString\<close> renders succeeds and gives an address with the same
  integer.\<close>

theorem C8_fromString_toString:
  assumes "0 \<le> v" and "v < 2 ^ 32"
  shows "\<exists>a. fromString (Ipv4Address_toString (Ipv4Address_new (Num v))) = Inr a
             \<and> integer a = integer (Ipv4Address_new (Num v))"
proof -
  from assms have "v mod 4294967296 = v" by simp
  then have "fromString (Ipv4Address_toString (Ipv4Address_new (Num v))) = Inr (Ipv4Address_new (Num v))"
    by (simp only: fromString_toString_mod)
  then show ?thesis by blast
qed

theorem C8_fromString_toString_witness:
  "(0::int) \<le> 3232235777 \<and> (3232235777::int) < 2 ^ 32
   \<and> Ipv4Address_toString (Ipv4Address_new (Num 3232235777)) = ''192.168.1.1''
   \<and> (\<exists>a. fromString ''192.168.1.1'' = Inr a \<and> integer a = Num 3232235777)"
proof -
  have h: "(0::int) \<le> 3232235777" "(3232235777::int) < 2 ^ 32" by simp_all
  have s: "Ipv4Address_toString (Ipv4Address_new (Num 3232235777)) = ''192.168.1.1''"
    by code_simp
  have i: "integer (Ipv4Address_new (Num 3232235777)) = Num 3232235777"
    by (simp add: integer_def Ipv4Address_new_def)
  from C8_fromString_toString [OF h] have
    "\<exists>a. fromString ''192.168.1.1'' = Inr a \<and> integer a = Num 3232235777"
    unfolding s i .
  with h s show ?thesis by blast
qed

section \<open>Arithmetic of aligned blocks\<close>

lemma blocks_cover:
  fixes s x B :: int
  assumes "0 < B"
  shows "(s \<le> x \<and> x \<le> s + int c * B - 1) = (\<exists>i<c. s + int i * B \<le> x \<and> x \<le> s + int i * B + B - 1)"
proof
  assume h: "s \<le> x \<and> x \<le> s + int c * B - 1"
  define i where "i = nat ((x - s) div B)"
  have d: "x - s = B * ((x - s) div B) + (x - s) mod B" by simp
  have m: "0 \<le> (x - s) mod B" "(x - s) mod B < B" using assms by simp_all
  have q0: "0 \<le> (x - s) div B" using h assms by (simp add: pos_imp_zdiv_nonneg_iff)
  then have i: "int i = (x - s) div B" by (simp add: i_def)
  have lo: "B * ((x - s) div B) \<le> x - s" using d m(1) by linarith
  have hi: "x - s < B * ((x - s) div B) + B" using d m(2) by linarith
  have "B * ((x - s) div B) < B * int c"
  proof -
    have "x - s < int c * B" using h by linarith
    with lo show ?thesis by (simp add: mult.commute)
  qed
  then have "(x - s) div B < int c" using assms by simp
  then have "i < c" using i by linarith
  moreover have "s + int i * B \<le> x \<and> x \<le> s + int i * B + B - 1"
  proof -
    have "int i * B = B * ((x - s) div B)" by (simp add: i)
    with lo hi show ?thesis by linarith
  qed
  ultimately show "\<exists>i<c. s + int i * B \<le> x \<and> x \<le> s + int i * B + B - 1" by blast
next
  assume "\<exists>i<c. s + int i * B \<le> x \<and> x \<le> s + int i * B + B - 1"
  then obtain i where i: "i < c" "s + int i * B \<le> x" "x \<le> s + int i * B + B - 1" by blast
  have a: "0 \<le> int i * B" using assms by simp
  have "(int i + 1) * B \<le> int c * B"
    using i(1) assms by (intro mult_right_mono) simp_all
  then have b: "int i * B + B \<le> int c * B"
    by (simp only: distrib_right mult_1)
  from a b i(2,3) show "s \<le> x \<and> x \<le> s + int c * B - 1"
    by linarith
qed

lemma blocks_disjoint:
  fixes s x B :: int
  assumes "0 < B"
    and "s + int i * B \<le> x" and "x \<le> s + int i * B + B - 1"
    and "s + int j * B \<le> x" and "x \<le> s + int j * B + B - 1"
  shows "i = j"
proof -
  have "(x - s) div B = int i"
    by (rule int_div_pos_eq [of _ _ _ "x - s - int i * B"]) (use assms in \<open>simp_all add: mult.commute\<close>)
  moreover have "(x - s) div B = int j"
    by (rule int_div_pos_eq [of _ _ _ "x - s - int j * B"]) (use assms in \<open>simp_all add: mult.commute\<close>)
  ultimately show ?thesis by simp
qed

section \<open>Splitting\<close>

lemma split_loop_Num:
  "split_loop this q (Num m) (Num i) acc
     = acc @ map (\<lambda>j. split_child this q (Num j)) [i..m - 1]"
proof (induction "nat (m - i)" arbitrary: i acc)
  case 0
  then have "\<not> i < m" by simp
  then show ?case by (subst split_loop.simps) simp
next
  case (Suc d)
  then have lt: "i < m" and d: "d = nat (m - (i + 1))" by simp_all
  have "split_loop this q (Num m) (Num i) acc
          = split_loop this q (Num m) (Num (i + 1)) (acc @ [split_child this q (Num i)])"
    using lt by (subst split_loop.simps) (simp add: split_child_def)
  also have "\<dots> = (acc @ [split_child this q (Num i)])
                      @ map (\<lambda>j. split_child this q (Num j)) [i + 1..m - 1]"
    using Suc.hyps(1) [OF d] .
  also have "\<dots> = acc @ map (\<lambda>j. split_child this q (Num j)) [i..m - 1]"
    using lt by (simp add: upto_rec1 [of i "m - 1"])
  finally show ?case .
qed

lemma split_net_children:
  assumes "prefixlen n = Num p" and "p < q"
  shows "split_net n (Num q)
           = Inr (map (\<lambda>j. split_child n (Num q) (Num j)) [0..2 ^ nat (q - p) - 1])"
  using assms by (simp add: split_net_def split_loop_Num)

lemma shiftCount_small:
  assumes "0 \<le> c" and "c < 32"
  shows "shiftCount (Num c) = nat c"
proof -
  have "take_bit 32 c = c"
    using assms by (simp add: take_bit_int_eq_self)
  moreover have "c AND 31 = take_bit 5 c"
    by (simp add: take_bit_eq_mask mask_eq_exp_minus_1)
  moreover have "take_bit 5 c = c"
    using assms by (simp add: take_bit_int_eq_self)
  ultimately show ?thesis by (simp add: shiftCount_def)
qed

text \<open>C4, as the claim states it: the children of \<open>split(q)\<close> are claimed to partition
  the range of the parent. The network \<open>10.47.64.0/16\<close>, whose base has bit 14 set, a bit
  between the two prefix lengths, has the range \<open>10.47.0.0\<close> to \<open>10.47.255.255\<close>; \<open>split(18)\<close> returns the four
  children \<open>10.47.64.0/18\<close>, \<open>10.47.128.0/18\<close>, \<open>10.47.192.0/18\<close> and \<open>10.48.0.0/18\<close>:
  the last lies above the parent's broadcast address and the parent's network address is
  below the first.\<close>

theorem C4_split_unaligned_counterexample:
  "fromCidr ''10.47.64.0/16'' = Inr (Ipv4Network_new (Ipv4Address_new (Num 170868736)) (Num 16))
   \<and> split_net (Ipv4Network_new (Ipv4Address_new (Num 170868736)) (Num 16)) (Num 18)
       = Inr [Ipv4Network_new (Ipv4Address_new (Num 170868736)) (Num 18),
              Ipv4Network_new (Ipv4Address_new (Num 170885120)) (Num 18),
              Ipv4Network_new (Ipv4Address_new (Num 170901504)) (Num 18),
              Ipv4Network_new (Ipv4Address_new (Num 170917888)) (Num 18)]
   \<and> integer (network (Ipv4Network_new (Ipv4Address_new (Num 170868736)) (Num 16))) = Num 170852352
   \<and> integer (broadcast (Ipv4Network_new (Ipv4Address_new (Num 170868736)) (Num 16))) = Num 170917887
   \<and> integer (network (Ipv4Network_new (Ipv4Address_new (Num 170868736)) (Num 18))) = Num 170868736
   \<and> integer (network (Ipv4Network_new (Ipv4Address_new (Num 170917888)) (Num 18))) = Num 170917888
   \<and> in_range (Ipv4Network_new (Ipv4Address_new (Num 170917888)) (Num 18)) 170917888
   \<and> \<not> in_range (Ipv4Network_new (Ipv4Address_new (Num 170868736)) (Num 16)) 170917888
   \<and> in_range (Ipv4Network_new (Ipv4Address_new (Num 170868736)) (Num 16)) 170852352
   \<and> \<not> in_range (Ipv4Network_new (Ipv4Address_new (Num 170868736)) (Num 18)) 170852352
   \<and> \<not> in_range (Ipv4Network_new (Ipv4Address_new (Num 170885120)) (Num 18)) 170852352
   \<and> \<not> in_range (Ipv4Network_new (Ipv4Address_new (Num 170901504)) (Num 18)) 170852352
   \<and> \<not> in_range (Ipv4Network_new (Ipv4Address_new (Num 170917888)) (Num 18)) 170852352"
  by code_simp

section \<open>Unsigned reading of aligned blocks\<close>

lemma tb32_clear:
  fixes x :: int
  assumes "K \<le> 32"
  shows "take_bit 32 (x - x mod 2 ^ K) = take_bit 32 x - take_bit 32 x mod 2 ^ K"
proof -
  have "take_bit 32 (x AND NOT (mask K)) = take_bit 32 x AND NOT (mask K)"
    by (rule bit_eqI) (auto simp: bit_simps)
  then show ?thesis
    by (simp add: and_neg_pow [symmetric] minus_exp_eq_not_mask)
qed

lemma block_bounds:
  fixes u :: int
  assumes "K \<le> 32" and "0 \<le> u" and "u < 2 ^ 32"
  shows "0 \<le> u - u mod 2 ^ K" and "u - u mod 2 ^ K + 2 ^ K \<le> 2 ^ 32"
proof -
  have "u mod 2 ^ K \<le> u" using assms(2) by (simp add: zmod_le_nonneg_dividend)
  then show "0 \<le> u - u mod 2 ^ K" by simp
  have e: "(2::int) ^ 32 = 2 ^ K * 2 ^ (32 - K)"
    using assms(1) by (simp add: power_add [symmetric])
  have "u div 2 ^ K < 2 ^ (32 - K)"
  proof (rule ccontr)
    assume "\<not> u div 2 ^ K < 2 ^ (32 - K)"
    then have "(2::int) ^ (32 - K) \<le> u div 2 ^ K" by simp
    then have "(2::int) ^ K * 2 ^ (32 - K) \<le> 2 ^ K * (u div 2 ^ K)"
      by (intro mult_left_mono) simp_all
    moreover have "2 ^ K * (u div 2 ^ K) \<le> u"
      using assms(2) by (simp add: minus_mod_eq_mult_div [symmetric])
    ultimately show False using assms(3) e by linarith
  qed
  then have "u div 2 ^ K + 1 \<le> 2 ^ (32 - K)" by simp
  then have "2 ^ K * (u div 2 ^ K + 1) \<le> (2::int) ^ K * 2 ^ (32 - K)"
    by (intro mult_left_mono) simp_all
  then have "2 ^ K * (u div 2 ^ K) + 2 ^ K \<le> (2::int) ^ 32"
    by (simp only: distrib_left mult_1_right e)
  moreover have "u - u mod 2 ^ K = 2 ^ K * (u div 2 ^ K)"
    by (simp add: minus_mod_eq_mult_div)
  ultimately show "u - u mod 2 ^ K + 2 ^ K \<le> 2 ^ 32" by simp
qed

lemma tb32_block_top:
  fixes x :: int
  assumes "K \<le> 32"
  shows "take_bit 32 (x - x mod 2 ^ K + 2 ^ K - 1)
           = take_bit 32 x - take_bit 32 x mod 2 ^ K + 2 ^ K - 1"
proof -
  let ?u = "take_bit 32 x"
  let ?U = "?u - ?u mod 2 ^ K"
  have u: "0 \<le> ?u" "?u < 2 ^ 32"
    by (simp, rule take_bit_int_less_exp)
  note b = block_bounds [OF assms u]
  have kpos: "(0::int) < 2 ^ K" by simp
  have "take_bit 32 (x - x mod 2 ^ K + (2 ^ K - 1))
          = take_bit 32 (take_bit 32 (x - x mod 2 ^ K) + take_bit 32 (2 ^ K - 1))"
    by (simp only: take_bit_add)
  also have "\<dots> = take_bit 32 (take_bit 32 ?U + take_bit 32 (2 ^ K - 1))"
    by (simp only: tb32_clear [OF assms] take_bit_take_bit min.idem)
  also have "\<dots> = take_bit 32 (?U + (2 ^ K - 1))"
    by (simp only: take_bit_add)
  also have "\<dots> = ?U + (2 ^ K - 1)"
    using b kpos by (intro take_bit_int_eq_self) linarith+
  finally show ?thesis by (simp add: algebra_simps)
qed

lemma tb32_push_bit:
  fixes x :: int
  shows "take_bit 32 (push_bit k (signed_take_bit 31 x)) = take_bit 32 (push_bit k x)"
proof (rule bit_eqI)
  fix n
  show "bit (take_bit 32 (push_bit k (signed_take_bit 31 x))) n = bit (take_bit 32 (push_bit k x)) n"
  proof (cases "n < 32")
    case True
    then have "min 31 (n - k) = n - k" by simp
    then show ?thesis by (simp add: bit_simps)
  next
    case False
    then show ?thesis by (simp add: bit_simps)
  qed
qed

lemma mid_bits_tb32:
  fixes a :: int
  assumes "k \<le> K" and "K \<le> 32"
  shows "take_bit 32 a div 2 ^ k mod 2 ^ (K - k) = a div 2 ^ k mod 2 ^ (K - k)"
proof -
  have "take_bit (K - k) (drop_bit k (take_bit 32 a)) = take_bit (K - k) (drop_bit k a)"
  proof (rule bit_eqI)
    fix n
    show "bit (take_bit (K - k) (drop_bit k (take_bit 32 a))) n
            = bit (take_bit (K - k) (drop_bit k a)) n"
    proof (cases "n < K - k")
      case True
      with assms have "k + n < 32" by simp
      then show ?thesis by (simp add: bit_simps)
    next
      case False
      then show ?thesis by (simp add: bit_simps)
    qed
  qed
  then show ?thesis by (simp add: take_bit_eq_mod drop_bit_eq_div)
qed

lemma child_unsigned:
  fixes a i :: int
  assumes "k \<le> K" and "K \<le> 32" and "a div 2 ^ k mod 2 ^ (K - k) = 0"
    and "0 \<le> i" and "i < 2 ^ (K - k)"
  shows "take_bit 32 (signed_take_bit 31
             (push_bit k (signed_take_bit 31 (drop_bit k (take_bit 32 a) + i))))
           = take_bit 32 a - take_bit 32 a mod 2 ^ K + i * 2 ^ k"
proof -
  let ?u = "take_bit 32 a"
  let ?U = "?u - ?u mod 2 ^ K"
  have u: "0 \<le> ?u" "?u < 2 ^ 32"
    by (simp, rule take_bit_int_less_exp)
  note b = block_bounds [OF assms(2) u]
  have kk: "(2::int) ^ (K - k) * 2 ^ k = 2 ^ K"
    using assms(1) by (simp add: power_add [symmetric])
  have kk': "(2::int) ^ k * 2 ^ (K - k) = 2 ^ K"
    using assms(1) by (simp add: power_add [symmetric])
  have m: "?u div 2 ^ k mod 2 ^ (K - k) = 0"
    using mid_bits_tb32 [OF assms(1,2), of a] assms(3) by simp
  have "?u div 2 ^ k = 2 ^ (K - k) * (?u div 2 ^ k div 2 ^ (K - k)) + ?u div 2 ^ k mod 2 ^ (K - k)"
    by (simp only: mult_div_mod_eq)
  also have "?u div 2 ^ k div 2 ^ (K - k) = ?u div (2 ^ k * 2 ^ (K - k))"
    by (rule zdiv_zmult2_eq [symmetric]) simp
  finally have d: "?u div 2 ^ k = 2 ^ (K - k) * (?u div 2 ^ K)"
    by (simp only: m kk' add_0_right)
  have "?u div 2 ^ k * 2 ^ k = 2 ^ (K - k) * (?u div 2 ^ K) * 2 ^ k"
    by (simp only: d)
  also have "\<dots> = (2 ^ (K - k) * 2 ^ k) * (?u div 2 ^ K)"
    by (simp only: mult_ac)
  also have "\<dots> = 2 ^ K * (?u div 2 ^ K)"
    by (simp only: kk)
  also have "\<dots> = ?U"
    by (simp add: minus_mod_eq_mult_div)
  finally have base: "?u div 2 ^ k * 2 ^ k = ?U" .
  have p: "push_bit k (drop_bit k ?u + i) = ?U + i * 2 ^ k"
    by (simp only: push_bit_eq_mult drop_bit_eq_div distrib_right base)
  have j: "i * 2 ^ k + 2 ^ k \<le> 2 ^ K"
  proof -
    from assms(5) have "i + 1 \<le> 2 ^ (K - k)" by simp
    then have "(i + 1) * 2 ^ k \<le> 2 ^ (K - k) * 2 ^ k"
      by (intro mult_right_mono) simp_all
    then show ?thesis
      by (simp only: distrib_right mult_1 kk)
  qed
  have i0: "0 \<le> i * 2 ^ k" using assms(4) by simp
  have kpos: "(0::int) < 2 ^ k" by simp
  have "take_bit 32 (signed_take_bit 31
             (push_bit k (signed_take_bit 31 (drop_bit k ?u + i))))
          = take_bit 32 (push_bit k (signed_take_bit 31 (drop_bit k ?u + i)))"
    by (simp add: take_bit_signed_take_bit)
  also have "\<dots> = take_bit 32 (?U + i * 2 ^ k)"
    by (simp only: tb32_push_bit p)
  also have "\<dots> = ?U + i * 2 ^ k"
    using b j i0 kpos by (intro take_bit_int_eq_self) linarith+
  finally show ?thesis .
qed

section \<open>Ranges as unsigned addresses\<close>

lemma tb32_ToInt32: "take_bit 32 (ToInt32 x) = ToUint32 x"
  by (cases x) (simp_all add: take_bit_signed_take_bit)

lemma ToUint32_bounds: "0 \<le> ToUint32 x" "ToUint32 x < 2 ^ 32"
proof -
  show "0 \<le> ToUint32 x" by (cases x) simp_all
  show "ToUint32 x < 2 ^ 32"
  proof (cases x)
    case (Num i)
    then show ?thesis using take_bit_int_less_exp [of 32 i] by simp
  next
    case NaN
    then show ?thesis by simp
  qed
qed

text \<open>For the prefix lengths 0 to 31, read as unsigned addresses, the network address is the
  base with its low \<open>32 - p\<close> bits cleared and the broadcast address has them set.\<close>

lemma range_unsigned:
  fixes a :: Ipv4Address and p :: int
  assumes "0 \<le> p" and "p \<le> 31"
  defines "n \<equiv> Ipv4Network_new a (Num p)"
  defines "K \<equiv> nat (32 - p)"
  defines "u \<equiv> ToUint32 (integer a)"
  shows "ToUint32 (integer (network n)) = u - u mod 2 ^ K"
    and "ToUint32 (integer (broadcast n)) = u - u mod 2 ^ K + 2 ^ K - 1"
    and "in_range n x = (u - u mod 2 ^ K \<le> x \<and> x \<le> u - u mod 2 ^ K + 2 ^ K - 1)"
proof -
  have K: "K \<le> 32" using assms(1) by (simp add: K_def)
  have nb: "ToUint32 (integer (network n)) = u - u mod 2 ^ K
            \<and> ToUint32 (integer (broadcast n)) = u - u mod 2 ^ K + 2 ^ K - 1"
  proof (cases "p = 0")
    case True
    then have "K = 32" by (simp add: K_def)
    moreover have "u mod 2 ^ 32 = u"
      using ToUint32_bounds [of "integer a"] by (simp add: u_def)
    moreover have "take_bit 32 (- 1 :: int) = 2 ^ 32 - 1"
      by (simp add: mask_eq_exp_minus_1)
    ultimately show ?thesis
      using network_parts_0(1,2) [of p a] True by (simp add: n_def)
  next
    case False
    with assms(1) have p1: "1 \<le> p" by simp
    let ?s = "ToInt32 (integer a)"
    have "integer (network n) = Num (?s - ?s mod 2 ^ K)"
      and "integer (broadcast n) = Num (?s - ?s mod 2 ^ K + 2 ^ K - 1)"
      using network_parts(1,2) [OF p1 assms(2), of a] by (simp_all add: n_def K_def)
    then show ?thesis
      by (simp add: tb32_clear [OF K] tb32_block_top [OF K] tb32_ToInt32 u_def)
  qed
  then show "ToUint32 (integer (network n)) = u - u mod 2 ^ K"
    and "ToUint32 (integer (broadcast n)) = u - u mod 2 ^ K + 2 ^ K - 1"
    by simp_all
  with nb show "in_range n x = (u - u mod 2 ^ K \<le> x \<and> x \<le> u - u mod 2 ^ K + 2 ^ K - 1)"
    by (simp add: in_range_def)
qed

lemma block_multiple:
  fixes u :: int
  assumes "k \<le> K"
  shows "(u - u mod 2 ^ K + i * 2 ^ k) mod 2 ^ k = 0"
proof -
  have "(2::int) ^ k dvd 2 ^ K" using assms by (intro le_imp_power_dvd)
  moreover have "(2::int) ^ K dvd u - u mod 2 ^ K"
    by (simp add: minus_mod_eq_mult_div)
  ultimately have "(2::int) ^ k dvd u - u mod 2 ^ K" by (rule dvd_trans)
  then have "(2::int) ^ k dvd u - u mod 2 ^ K + i * 2 ^ k" by simp
  then show ?thesis by (simp only: mod_eq_0_iff_dvd)
qed

text \<open>The children of \<open>split(q)\<close> when the bits of the base between the two prefix lengths
  are zero.\<close>

lemma split_child_unsigned:
  fixes a p q i :: int
  assumes "0 \<le> p" and "p < q" and "q \<le> 31"
    and "a div 2 ^ nat (32 - q) mod 2 ^ nat (q - p) = 0" and "0 \<le> i" and "i < 2 ^ nat (q - p)"
  defines "c \<equiv> split_child (Ipv4Network_new (Ipv4Address_new (Num a)) (Num p)) (Num q) (Num i)"
  defines "U \<equiv> take_bit 32 a - take_bit 32 a mod 2 ^ nat (32 - p)"
  shows "ToUint32 (integer (address c)) = U + i * 2 ^ nat (32 - q)"
    and "in_range c x
           = (U + i * 2 ^ nat (32 - q) \<le> x \<and> x \<le> U + i * 2 ^ nat (32 - q) + 2 ^ nat (32 - q) - 1)"
proof -
  let ?k = "nat (32 - q)" and ?K = "nat (32 - p)"
  define cv where "cv = signed_take_bit 31
      (push_bit ?k (signed_take_bit 31 (drop_bit ?k (take_bit 32 a) + i)))"
  have k: "?k \<le> ?K" "?K \<le> 32" using assms by simp_all
  have e: "?K - ?k = nat (q - p)" using assms by simp
  have sc: "shiftCount (Num (32 - q)) = ?k"
    using assms by (intro shiftCount_small) simp_all
  have c: "c = Ipv4Network_new (Ipv4Address_new (Num cv)) (Num q)"
    by (simp add: c_def cv_def split_child_def Ipv4Network_new_def Ipv4Address_new_def integer_def
        IPV4_MAX_PREFIXLEN_def js_shl_def js_shr_def sc)
  have tb: "take_bit 32 cv = U + i * 2 ^ ?k"
    unfolding cv_def U_def
    using assms(4,5,6) by (intro child_unsigned [OF k]) (simp_all add: e)
  show "ToUint32 (integer (address c)) = U + i * 2 ^ ?k"
    by (simp add: c Ipv4Network_new_def Ipv4Address_new_def integer_def tb)
  have q: "0 \<le> q" using assms by simp
  have u: "ToUint32 (integer (Ipv4Address_new (Num cv))) = U + i * 2 ^ ?k"
    by (simp add: Ipv4Address_new_def integer_def tb)
  have m: "(U + i * 2 ^ ?k) mod 2 ^ ?k = 0"
    unfolding U_def by (rule block_multiple [OF k(1)])
  show "in_range c x = (U + i * 2 ^ ?k \<le> x \<and> x \<le> U + i * 2 ^ ?k + 2 ^ ?k - 1)"
    unfolding c range_unsigned(3) [OF q assms(3)] u using m by simp
qed

lemma split_children_nth:
  fixes a p q :: int
  assumes "p < q"
  shows "\<exists>cs. split_net (Ipv4Network_new (Ipv4Address_new (Num a)) (Num p)) (Num q) = Inr cs
     \<and> length cs = 2 ^ nat (q - p)
     \<and> (\<forall>i<length cs. cs ! i
            = split_child (Ipv4Network_new (Ipv4Address_new (Num a)) (Num p)) (Num q) (Num (int i)))"
proof -
  let ?N = "Ipv4Network_new (Ipv4Address_new (Num a)) (Num p)"
  define d where "d = nat (q - p)"
  define cs where "cs = map (\<lambda>j. split_child ?N (Num q) (Num j)) [0..2 ^ d - 1]"
  have pl: "prefixlen ?N = Num p" by (simp add: Ipv4Network_new_def)
  have sp: "split_net ?N (Num q) = Inr cs"
    unfolding cs_def d_def by (rule split_net_children [OF pl assms])
  have len: "length cs = 2 ^ d"
    by (simp add: cs_def nat_power_eq)
  have ib: "int i < 2 ^ d" if "i < 2 ^ d" for i
    using that by (metis of_nat_less_iff of_nat_numeral of_nat_power)
  have csn: "cs ! i = split_child ?N (Num q) (Num (int i))" if "i < 2 ^ d" for i
  proof -
    have l: "i < length [0..2 ^ d - 1]" using that by (simp add: nat_power_eq)
    have "0 + int i \<le> 2 ^ d - 1" using ib [OF that] by simp
    then have "[0..2 ^ d - 1] ! i = 0 + int i" by (rule nth_upto)
    then have u: "[0..2 ^ d - 1] ! i = int i" by simp
    show ?thesis
      unfolding cs_def by (simp only: nth_map [OF l] u)
  qed
  from sp len csn show ?thesis unfolding d_def by auto
qed

text \<open>At \<open>q = 32\<close> the children get the netmask 0 (see C1): their \<open>network()\<close> is
  \<open>0.0.0.0\<close> and their \<open>broadcast()\<close> is \<open>255.255.255.255\<close>, so the range of each child is
  the whole address space and not the one address of the child.\<close>

lemma split_to_prefix_32:
  "split_net (Ipv4Network_new (Ipv4Address_new (Num 167772160)) (Num 31)) (Num 32)
     = Inr [Ipv4Network_new (Ipv4Address_new (Num 167772160)) (Num 32),
            Ipv4Network_new (Ipv4Address_new (Num 167772161)) (Num 32)]
   \<and> \<not> in_range (Ipv4Network_new (Ipv4Address_new (Num 167772160)) (Num 31)) 5
   \<and> in_range (Ipv4Network_new (Ipv4Address_new (Num 167772160)) (Num 32)) 5
   \<and> in_range (Ipv4Network_new (Ipv4Address_new (Num 167772161)) (Num 32)) 5
   \<and> Ipv4Address_toString (network (Ipv4Network_new (Ipv4Address_new (Num 167772161)) (Num 32)))
       = ''0.0.0.0''
   \<and> Ipv4Address_toString (broadcast (Ipv4Network_new (Ipv4Address_new (Num 167772161)) (Num 32)))
       = ''255.255.255.255''"
  by code_simp

text \<open>C4, amended: for a network of prefix length \<open>p\<close> and every \<open>q > p\<close>, \<open>split(q)\<close>
  returns exactly \<open>2 ^ (q - p)\<close> children, each of prefix length \<open>q\<close>, child \<open>i\<close> with the
  base address \<open>((base >>> (32 - q)) + i) << (32 - q)\<close>. When moreover \<open>0 \<le> p\<close>,
  \<open>q \<le> 31\<close> and the bits \<open>32 - q\<close> to \<open>31 - p\<close> of the base address are zero, then, with
  addresses read as unsigned 32-bit values, the base of child \<open>i\<close> is
  \<open>network() + i * 2 ^ (32 - q)\<close>, the bases increase, every address of the parent's range
  lies in the range of exactly one child, and the children's ranges hold nothing else.\<close>

theorem C4_split_partition:
  fixes a p q :: int
  assumes "p < q"
  shows "\<exists>cs. split_net (Ipv4Network_new (Ipv4Address_new (Num a)) (Num p)) (Num q) = Inr cs
     \<and> length cs = 2 ^ nat (q - p)
     \<and> (\<forall>i<length cs. prefixlen (cs ! i) = Num q
          \<and> integer (address (cs ! i))
              = js_shl (js_add (js_shr (Num a) (Num (32 - q))) (Num (int i))) (Num (32 - q)))
     \<and> (0 \<le> p \<and> q \<le> 31 \<and> a div 2 ^ nat (32 - q) mod 2 ^ nat (q - p) = 0 \<longrightarrow>
          (\<forall>i<length cs. ToUint32 (integer (address (cs ! i)))
              = ToUint32 (integer (network (Ipv4Network_new (Ipv4Address_new (Num a)) (Num p))))
                + int i * 2 ^ nat (32 - q))
          \<and> (\<forall>i j. i < j \<and> j < length cs
                \<longrightarrow> ToUint32 (integer (address (cs ! i))) < ToUint32 (integer (address (cs ! j))))
          \<and> (\<forall>x. in_range (Ipv4Network_new (Ipv4Address_new (Num a)) (Num p)) x
                  = (\<exists>i<length cs. in_range (cs ! i) x))
          \<and> (\<forall>i j x. i < length cs \<and> j < length cs \<and> in_range (cs ! i) x \<and> in_range (cs ! j) x
                \<longrightarrow> i = j))"
proof -
  let ?N = "Ipv4Network_new (Ipv4Address_new (Num a)) (Num p)"
  define d where "d = nat (q - p)"
  define k where "k = nat (32 - q)"
  define U where "U = take_bit 32 a - take_bit 32 a mod 2 ^ nat (32 - p)"
  from split_children_nth [OF assms, of a] obtain cs where
    sp: "split_net ?N (Num q) = Inr cs" and len: "length cs = 2 ^ d"
    and csn: "\<forall>i<length cs. cs ! i = split_child ?N (Num q) (Num (int i))"
    unfolding d_def by blast
  have ch: "\<forall>i<length cs. prefixlen (cs ! i) = Num q
          \<and> integer (address (cs ! i))
              = js_shl (js_add (js_shr (Num a) (Num (32 - q))) (Num (int i))) (Num (32 - q))"
    by (simp add: csn split_child_def Ipv4Network_new_def Ipv4Address_new_def integer_def
        IPV4_MAX_PREFIXLEN_def)
  have al: "(\<forall>i<length cs. ToUint32 (integer (address (cs ! i)))
              = ToUint32 (integer (network ?N)) + int i * 2 ^ nat (32 - q))
          \<and> (\<forall>i j. i < j \<and> j < length cs
                \<longrightarrow> ToUint32 (integer (address (cs ! i))) < ToUint32 (integer (address (cs ! j))))
          \<and> (\<forall>x. in_range ?N x = (\<exists>i<length cs. in_range (cs ! i) x))
          \<and> (\<forall>i j x. i < length cs \<and> j < length cs \<and> in_range (cs ! i) x \<and> in_range (cs ! j) x
                \<longrightarrow> i = j)"
    if h: "0 \<le> p \<and> q \<le> 31 \<and> a div 2 ^ nat (32 - q) mod 2 ^ nat (q - p) = 0"
  proof -
    from h have h1: "0 \<le> p" and h3: "q \<le> 31"
      and h4: "a div 2 ^ nat (32 - q) mod 2 ^ nat (q - p) = 0"
      by simp_all
    have p31: "p \<le> 31" using assms h3 by simp
    have ib: "int i < 2 ^ nat (q - p)" if "i < 2 ^ d" for i
      using that unfolding d_def by (metis of_nat_less_iff of_nat_numeral of_nat_power)
    have ua: "ToUint32 (integer (Ipv4Address_new (Num a))) = take_bit 32 a"
      by (simp add: Ipv4Address_new_def integer_def)
    have net: "ToUint32 (integer (network ?N)) = U"
      unfolding U_def using range_unsigned(1) [OF h1 p31, of "Ipv4Address_new (Num a)"]
      by (simp only: ua)
    have prange: "in_range ?N x = (U \<le> x \<and> x \<le> U + 2 ^ nat (32 - p) - 1)" for x
      unfolding U_def using range_unsigned(3) [OF h1 p31, of "Ipv4Address_new (Num a)" x]
      by (simp only: ua)
    have caddr: "ToUint32 (integer (address (cs ! i))) = U + int i * 2 ^ k" if "i < 2 ^ d" for i
    proof -
      have "cs ! i = split_child ?N (Num q) (Num (int i))" using csn that len by simp
      then show ?thesis
        unfolding U_def k_def
        using split_child_unsigned(1) [OF h1 assms h3 h4 _ ib [OF that]] by simp
    qed
    have crange: "in_range (cs ! i) x = (U + int i * 2 ^ k \<le> x \<and> x \<le> U + int i * 2 ^ k + 2 ^ k - 1)"
      if "i < 2 ^ d" for i x
    proof -
      have "cs ! i = split_child ?N (Num q) (Num (int i))" using csn that len by simp
      then show ?thesis
        unfolding U_def k_def
        using split_child_unsigned(2) [OF h1 assms h3 h4 _ ib [OF that]] by simp
    qed
    have pw: "int (2 ^ d) * 2 ^ k = (2::int) ^ nat (32 - p)"
    proof -
      have "d + k = nat (32 - p)" using assms h3 by (simp add: d_def k_def)
      then show ?thesis by (simp add: power_add [symmetric])
    qed
    have kpos: "(0::int) < 2 ^ k" by simp
    have 1: "\<forall>i<length cs. ToUint32 (integer (address (cs ! i)))
              = ToUint32 (integer (network ?N)) + int i * 2 ^ nat (32 - q)"
      by (simp add: len caddr net k_def)
    have 2: "\<forall>i j. i < j \<and> j < length cs
                \<longrightarrow> ToUint32 (integer (address (cs ! i))) < ToUint32 (integer (address (cs ! j)))"
    proof (intro allI impI)
      fix i j assume ij: "i < j \<and> j < length cs"
      then have i: "i < 2 ^ d" and j: "j < 2 ^ d" by (simp_all add: len)
      from ij have "int i * 2 ^ k < int j * 2 ^ k" by simp
      then show "ToUint32 (integer (address (cs ! i))) < ToUint32 (integer (address (cs ! j)))"
        by (simp only: caddr [OF i] caddr [OF j] add_less_cancel_left)
    qed
    have 3: "\<forall>x. in_range ?N x = (\<exists>i<length cs. in_range (cs ! i) x)"
    proof
      fix x
      have "in_range ?N x = (U \<le> x \<and> x \<le> U + int (2 ^ d) * 2 ^ k - 1)"
        by (simp only: prange pw)
      also have "\<dots> = (\<exists>i<2 ^ d. U + int i * 2 ^ k \<le> x \<and> x \<le> U + int i * 2 ^ k + 2 ^ k - 1)"
        by (rule blocks_cover [OF kpos])
      also have "\<dots> = (\<exists>i<2 ^ d. in_range (cs ! i) x)"
        using crange by blast
      finally show "in_range ?N x = (\<exists>i<length cs. in_range (cs ! i) x)"
        by (simp only: len)
    qed
    have 4: "\<forall>i j x. i < length cs \<and> j < length cs \<and> in_range (cs ! i) x \<and> in_range (cs ! j) x
              \<longrightarrow> i = j"
    proof (intro allI impI)
      fix i j x
      assume g: "i < length cs \<and> j < length cs \<and> in_range (cs ! i) x \<and> in_range (cs ! j) x"
      then have i: "i < 2 ^ d" and j: "j < 2 ^ d" by (simp_all add: len)
      from g have "U + int i * 2 ^ k \<le> x" "x \<le> U + int i * 2 ^ k + 2 ^ k - 1"
        "U + int j * 2 ^ k \<le> x" "x \<le> U + int j * 2 ^ k + 2 ^ k - 1"
        by (simp_all add: crange [OF i] crange [OF j])
      then show "i = j" by (rule blocks_disjoint [OF kpos])
    qed
    from 1 2 3 4 show ?thesis by blast
  qed
  from sp len ch al show ?thesis unfolding d_def by blast
qed

theorem C4_split_partition_witness:
  "(16::int) < 18 \<and> (0::int) \<le> 16 \<and> (18::int) \<le> 31
   \<and> (170852357::int) div 2 ^ nat (32 - 18) mod 2 ^ nat (18 - 16) = 0
   \<and> fromCidr ''10.47.0.5/16'' = Inr (Ipv4Network_new (Ipv4Address_new (Num 170852357)) (Num 16))
   \<and> split_net (Ipv4Network_new (Ipv4Address_new (Num 170852357)) (Num 16)) (Num 18)
       = Inr [Ipv4Network_new (Ipv4Address_new (Num 170852352)) (Num 18),
              Ipv4Network_new (Ipv4Address_new (Num 170868736)) (Num 18),
              Ipv4Network_new (Ipv4Address_new (Num 170885120)) (Num 18),
              Ipv4Network_new (Ipv4Address_new (Num 170901504)) (Num 18)]
   \<and> in_range (Ipv4Network_new (Ipv4Address_new (Num 170852357)) (Num 16)) 170900000
   \<and> (\<exists>i<4. in_range ([Ipv4Network_new (Ipv4Address_new (Num 170852352)) (Num 18),
                          Ipv4Network_new (Ipv4Address_new (Num 170868736)) (Num 18),
                          Ipv4Network_new (Ipv4Address_new (Num 170885120)) (Num 18),
                          Ipv4Network_new (Ipv4Address_new (Num 170901504)) (Num 18)] ! i)
                  170900000)"
proof -
  let ?N = "Ipv4Network_new (Ipv4Address_new (Num 170852357)) (Num 16)"
  let ?cs = "[Ipv4Network_new (Ipv4Address_new (Num 170852352)) (Num 18),
              Ipv4Network_new (Ipv4Address_new (Num 170868736)) (Num 18),
              Ipv4Network_new (Ipv4Address_new (Num 170885120)) (Num 18),
              Ipv4Network_new (Ipv4Address_new (Num 170901504)) (Num 18)]"
  have h0: "(16::int) < 18" by simp
  have h: "(0::int) \<le> 16 \<and> (18::int) \<le> 31
           \<and> (170852357::int) div 2 ^ nat (32 - 18) mod 2 ^ nat (18 - 16) = 0"
    by simp
  have fc: "fromCidr ''10.47.0.5/16'' = Inr ?N" by code_simp
  have ev: "split_net ?N (Num 18) = Inr ?cs" by code_simp
  have r: "in_range ?N 170900000" by code_simp
  from C4_split_partition [OF h0, of 170852357] h obtain cs where
    cs: "split_net ?N (Num 18) = Inr cs"
    and cov: "\<forall>x. in_range ?N x = (\<exists>i<length cs. in_range (cs ! i) x)"
    by blast
  from cs ev have eq: "cs = ?cs" by simp
  from cov r have "\<exists>i<length cs. in_range (cs ! i) 170900000" by blast
  then have "\<exists>i<length ?cs. in_range (?cs ! i) 170900000"
    by (simp only: eq)
  moreover have "length ?cs = 4" by simp
  ultimately have "\<exists>i<4. in_range (?cs ! i) 170900000"
    by metis
  with h0 h fc ev r show ?thesis by blast
qed

section \<open>Overlap\<close>

lemma signed_block:
  fixes s :: int
  assumes "K \<le> 31" and "- (2 ^ 31) \<le> s" and "s < 2 ^ 31"
  defines "lo \<equiv> s - s mod 2 ^ K"
  shows "- (2 ^ 31) \<le> lo" and "lo + 2 ^ K \<le> 2 ^ 31"
    and "take_bit 32 lo = (if lo < 0 then lo + 2 ^ 32 else lo)"
proof -
  let ?v = "s + 2 ^ 31"
  have K: "K \<le> 32" using assms(1) by simp
  have v: "0 \<le> ?v" "?v < 2 ^ 32" using assms(2,3) by simp_all
  have "(2::int) ^ K dvd 2 ^ 31" using assms(1) by (intro le_imp_power_dvd)
  then have "?v mod 2 ^ K = s mod 2 ^ K"
    by (metis mod_add_cong mod_0_imp_dvd dvd_imp_mod_0 add.right_neutral mod_mod_trivial)
  then have e: "?v - ?v mod 2 ^ K = lo + 2 ^ 31" by (simp add: lo_def)
  from block_bounds [OF K v] show lb: "- (2 ^ 31) \<le> lo" and ub: "lo + 2 ^ K \<le> 2 ^ 31"
    unfolding e by simp_all
  have kpos: "(0::int) < 2 ^ K" by simp
  show "take_bit 32 lo = (if lo < 0 then lo + 2 ^ 32 else lo)"
  proof (cases "lo < 0")
    case True
    have "take_bit 32 lo = take_bit 32 (lo + 2 ^ 32)"
      by (simp add: take_bit_eq_mod)
    also have "\<dots> = lo + 2 ^ 32"
      using lb True by (intro take_bit_int_eq_self) simp_all
    finally show ?thesis using True by simp
  next
    case False
    have "(2::int) ^ 31 < 2 ^ 32" by simp
    with ub kpos have "lo < 2 ^ 32" by linarith
    with False have "take_bit 32 lo = lo"
      by (intro take_bit_int_eq_self) simp_all
    then show ?thesis using False by simp
  qed
qed

lemma ToInt32_bounds: "- (2 ^ 31) \<le> ToInt32 x" "ToInt32 x < 2 ^ 31"
proof -
  show "- (2 ^ 31) \<le> ToInt32 x"
  proof (cases x)
    case (Num i)
    then show ?thesis using signed_take_bit_int_greater_eq_minus_exp [of 31 i] by simp
  next
    case NaN
    then show ?thesis by simp
  qed
  show "ToInt32 x < 2 ^ 31"
  proof (cases x)
    case (Num i)
    then show ?thesis using signed_take_bit_int_less_exp [of 31 i] by simp
  next
    case NaN
    then show ?thesis by simp
  qed
qed

text \<open>For the prefix lengths 1 to 31 the signed comparisons of \<open>overlaps\<close> agree with the
  address ranges: each range lies in one half of the signed numbers.\<close>

lemma overlaps_iff_ranges_1_31:
  fixes a b :: Ipv4Address and p q :: int
  assumes "1 \<le> p" and "p \<le> 31" and "1 \<le> q" and "q \<le> 31"
  shows "overlaps (Ipv4Network_new a (Num p)) (Ipv4Network_new b (Num q))
           = (\<exists>x. in_range (Ipv4Network_new a (Num p)) x \<and> in_range (Ipv4Network_new b (Num q)) x)"
proof -
  let ?A = "Ipv4Network_new a (Num p)" and ?B = "Ipv4Network_new b (Num q)"
  define Ka where "Ka = nat (32 - p)"
  define Kb where "Kb = nat (32 - q)"
  define la where "la = ToInt32 (integer a) - ToInt32 (integer a) mod 2 ^ Ka"
  define lb where "lb = ToInt32 (integer b) - ToInt32 (integer b) mod 2 ^ Kb"
  define da where "da = (if la < 0 then (2::int) ^ 32 else 0)"
  define db where "db = (if lb < 0 then (2::int) ^ 32 else 0)"
  have K: "Ka \<le> 31" "Kb \<le> 31" using assms by (simp_all add: Ka_def Kb_def)
  have p0: "0 \<le> p" and q0: "0 \<le> q" using assms by simp_all
  note npa = network_parts [OF assms(1,2), of a, folded Ka_def, folded la_def]
  note npb = network_parts [OF assms(3,4), of b, folded Kb_def, folded lb_def]
  note sba = signed_block [of Ka "ToInt32 (integer a)", OF K(1) ToInt32_bounds, folded la_def]
  note sbb = signed_block [of Kb "ToInt32 (integer b)", OF K(2) ToInt32_bounds, folded lb_def]
  have sga: "0 \<le> la \<or> la + 2 ^ Ka - 1 < 0"
    unfolding la_def by (rule block_one_sign)
  have sgb: "0 \<le> lb \<or> lb + 2 ^ Kb - 1 < 0"
    unfolding lb_def by (rule block_one_sign)
  have ua: "ToUint32 (integer (network ?A)) = la + da"
    by (simp add: npa(1) sba(3) da_def)
  have ub: "ToUint32 (integer (network ?B)) = lb + db"
    by (simp add: npb(1) sbb(3) db_def)
  have ra: "in_range ?A x = (la + da \<le> x \<and> x \<le> la + da + 2 ^ Ka - 1)" for x
    using range_unsigned(1) [OF p0 assms(2), of a] range_unsigned(3) [OF p0 assms(2), of a x] ua
    by (simp add: Ka_def)
  have rb: "in_range ?B x = (lb + db \<le> x \<and> x \<le> lb + db + 2 ^ Kb - 1)" for x
    using range_unsigned(1) [OF q0 assms(4), of b] range_unsigned(3) [OF q0 assms(4), of b x] ub
    by (simp add: Kb_def)
  have ov: "overlaps ?A ?B = (lb \<le> la + 2 ^ Ka - 1 \<and> la \<le> lb + 2 ^ Kb - 1)"
    unfolding overlaps_def by (simp only: npa npb js_le.simps)
  have pa: "(0::int) < 2 ^ Ka" and pb: "(0::int) < 2 ^ Kb" by simp_all
  have w: "(2::int) ^ 32 = 2 * 2 ^ 31" by simp
  have "(lb \<le> la + 2 ^ Ka - 1 \<and> la \<le> lb + 2 ^ Kb - 1)
          = (lb + db \<le> la + da + 2 ^ Ka - 1 \<and> la + da \<le> lb + db + 2 ^ Kb - 1)"
  proof -
    have "(la < 0 \<and> lb < 0) \<or> (0 \<le> la \<and> 0 \<le> lb) \<or> (la < 0 \<and> 0 \<le> lb) \<or> (0 \<le> la \<and> lb < 0)"
      by linarith
    then show ?thesis
    proof (elim disjE conjE)
      assume "la < 0" "lb < 0"
      then have "da = 2 ^ 32" "db = 2 ^ 32" by (simp_all add: da_def db_def)
      then show ?thesis by auto
    next
      assume "0 \<le> la" "0 \<le> lb"
      then have "da = 0" "db = 0" by (simp_all add: da_def db_def)
      then show ?thesis by auto
    next
      assume h: "la < 0" "0 \<le> lb"
      then have d: "da = 2 ^ 32" "db = 0" by (simp_all add: da_def db_def)
      from h sga have "la + 2 ^ Ka - 1 < 0" by linarith
      with h have l: "\<not> lb \<le> la + 2 ^ Ka - 1" by linarith
      from sba(1) sbb(2) pb w have "\<not> la + 2 ^ 32 \<le> lb + 2 ^ Kb - 1" by linarith
      with l show ?thesis by (simp only: d add_0_right) blast
    next
      assume h: "0 \<le> la" "lb < 0"
      then have d: "da = 0" "db = 2 ^ 32" by (simp_all add: da_def db_def)
      from h sgb have "lb + 2 ^ Kb - 1 < 0" by linarith
      with h have l: "\<not> la \<le> lb + 2 ^ Kb - 1" by linarith
      from sbb(1) sba(2) pa w have "\<not> lb + 2 ^ 32 \<le> la + 2 ^ Ka - 1" by linarith
      with l show ?thesis by (simp only: d add_0_right) blast
    qed
  qed
  also have "\<dots> = (\<exists>x. (la + da \<le> x \<and> x \<le> la + da + 2 ^ Ka - 1)
                        \<and> (lb + db \<le> x \<and> x \<le> lb + db + 2 ^ Kb - 1))"
  proof
    assume h: "lb + db \<le> la + da + 2 ^ Ka - 1 \<and> la + da \<le> lb + db + 2 ^ Kb - 1"
    with pa pb have "(la + da \<le> max (la + da) (lb + db)
                     \<and> max (la + da) (lb + db) \<le> la + da + 2 ^ Ka - 1)
                   \<and> (lb + db \<le> max (la + da) (lb + db)
                     \<and> max (la + da) (lb + db) \<le> lb + db + 2 ^ Kb - 1)"
      by (simp add: max_def)
    then show "\<exists>x. (la + da \<le> x \<and> x \<le> la + da + 2 ^ Ka - 1)
                 \<and> (lb + db \<le> x \<and> x \<le> lb + db + 2 ^ Kb - 1)" ..
  next
    assume "\<exists>x. (la + da \<le> x \<and> x \<le> la + da + 2 ^ Ka - 1)
               \<and> (lb + db \<le> x \<and> x \<le> lb + db + 2 ^ Kb - 1)"
    then show "lb + db \<le> la + da + 2 ^ Ka - 1 \<and> la + da \<le> lb + db + 2 ^ Kb - 1"
      by auto
  qed
  finally show ?thesis
    by (simp only: ov ra rb)
qed

text \<open>C3: \<open>a.overlaps(b)\<close> is claimed true whenever the two address ranges intersect. For
  the prefix lengths 1 to 31 it is (lemma \<open>overlaps_iff_ranges_1_31\<close>). The network
  \<open>0.0.0.0/0\<close> runs from \<open>0.0.0.0\<close> to \<open>255.255.255.255\<close> and holds \<open>10.0.0.0\<close>, as
  \<open>10.0.0.0/8\<close> does, yet \<open>overlaps\<close> answers false in both directions: it compares the
  broadcast address as the signed number \<open>-1\<close>. A network of prefix length 32, whose
  netmask is 0 (see C1), does not even overlap itself.\<close>

theorem C3_overlaps_misses_prefix_0:
  "fromCidr ''0.0.0.0/0'' = Inr (Ipv4Network_new (Ipv4Address_new (Num 0)) (Num 0))
   \<and> fromCidr ''10.0.0.0/8'' = Inr (Ipv4Network_new (Ipv4Address_new (Num 167772160)) (Num 8))
   \<and> Ipv4Address_toString (network (Ipv4Network_new (Ipv4Address_new (Num 0)) (Num 0)))
       = ''0.0.0.0''
   \<and> Ipv4Address_toString (broadcast (Ipv4Network_new (Ipv4Address_new (Num 0)) (Num 0)))
       = ''255.255.255.255''
   \<and> integer (broadcast (Ipv4Network_new (Ipv4Address_new (Num 0)) (Num 0))) = Num (- 1)
   \<and> in_range (Ipv4Network_new (Ipv4Address_new (Num 0)) (Num 0)) 167772160
   \<and> in_range (Ipv4Network_new (Ipv4Address_new (Num 167772160)) (Num 8)) 167772160
   \<and> \<not> overlaps (Ipv4Network_new (Ipv4Address_new (Num 0)) (Num 0))
                 (Ipv4Network_new (Ipv4Address_new (Num 167772160)) (Num 8))
   \<and> \<not> overlaps (Ipv4Network_new (Ipv4Address_new (Num 167772160)) (Num 8))
                 (Ipv4Network_new (Ipv4Address_new (Num 0)) (Num 0))
   \<and> fromCidr ''10.0.0.1/32'' = Inr (Ipv4Network_new (Ipv4Address_new (Num 167772161)) (Num 32))
   \<and> in_range (Ipv4Network_new (Ipv4Address_new (Num 167772161)) (Num 32)) 167772161
   \<and> \<not> overlaps (Ipv4Network_new (Ipv4Address_new (Num 167772161)) (Num 32))
                 (Ipv4Network_new (Ipv4Address_new (Num 167772161)) (Num 32))"
  by code_simp

end
